theory Spec2Isabelle
  imports Main "HOL-Library.AList"
begin

section \<open>Data model\<close>

text \<open>
  A CFG node is referred to through a pointer (\<open>const CFGNode*\<close>) and carries the key of its
  basic block; the graph holds exactly one node per key, so a node and its key are the same
  natural number here. The null pointer that ends a complete dominator chain is \<open>None\<close>.
\<close>

type_synonym CFGNode = nat

text \<open>
  Modelled from the spec: the declaration of the edge data (\<open>CFGEdge::data\<close>) is not among
  the sources. The analysis reads two things from it: \<open>isBackEdge\<close>, asked with the key of
  the predecessor, and the flag \<open>isWorkGroupLoop\<close>.
\<close>

record CFGRelation =
  isBackEdge :: "CFGNode \<Rightarrow> bool"
  isWorkGroupLoop :: bool

text \<open>
  Modelled from the spec: the declaration of \<open>ControlFlowGraph\<close> is not among the sources.
  The graph gives its nodes (\<open>getNodes\<close>, here in the order in which the node container is
  traversed) and for every node its incoming edges with their predecessors (here the pairs of
  predecessor and edge data in the order in which \<open>forAllIncomingEdges\<close> visits them).
\<close>

record ControlFlowGraph =
  getNodes :: "CFGNode list"
  incomingEdges :: "CFGNode \<Rightarrow> (CFGNode \<times> CFGRelation) list"

text \<open>
  \<open>FastSet\<close> and \<open>FastMap\<close> are hash containers: membership and lookup are those of a set
  and a map, the order of traversal is not fixed by the language. The model keeps a set as a
  duplicate-free list and a map as an association list, both in insertion order, and takes
  the order in which each local container is traversed as a parameter: a function from the
  keys in insertion order to the keys in traversal order.
\<close>

record IterationOrder =
  chainOrder :: "CFGNode list \<Rightarrow> CFGNode list"
  pendingOrder :: "CFGNode list \<Rightarrow> CFGNode list"
  candidateOrder :: "CFGNode list \<Rightarrow> CFGNode list"

definition insertionOrder :: IterationOrder where
  "insertionOrder =
     \<lparr>chainOrder = (\<lambda>ks. ks), pendingOrder = (\<lambda>ks. ks), candidateOrder = (\<lambda>ks. ks)\<rparr>"

definition emplaceSet :: "'a \<Rightarrow> 'a list \<Rightarrow> 'a list" where
  "emplaceSet x xs = (if x \<in> set xs then xs else xs @ [x])"

definition emplace :: "'k \<Rightarrow> 'v \<Rightarrow> ('k \<times> 'v) list \<Rightarrow> ('k \<times> 'v) list" where
  "emplace k v m = (case map_of m k of None \<Rightarrow> m @ [(k, v)] | Some old \<Rightarrow> m)"

text \<open>\<open>it->second.insert(it->second.end(), ...)\<close> on the entry of key \<open>k\<close>.\<close>

definition appendTo :: "'k \<Rightarrow> 'v list \<Rightarrow> ('k \<times> 'v list) list \<Rightarrow> ('k \<times> 'v list) list" where
  "appendTo k ys m = (case map_of m k of None \<Rightarrow> m | Some c \<Rightarrow> AList.update k (c @ ys) m)"

text \<open>
  Modelled from the spec: the graph container behind \<open>DominatorTree\<close> (its declaration and
  \<open>getOrCreateNode\<close>, \<open>assertNode\<close>, \<open>addEdge\<close>) is not among the sources. The tree is a
  directed graph over the nodes of the CFG; an edge (d, n) says that d is the immediate
  dominator of n. A tree node is created on first reference and never twice, an edge is
  recorded as a pair, and \<open>assertNode\<close> is the lookup that fails for a node that was never
  created.
\<close>

record DominatorTree =
  treeNodes :: "CFGNode list"
  treeEdges :: "(CFGNode \<times> CFGNode) list"

datatype error = NodeNotFound

definition getOrCreateNode :: "DominatorTree \<Rightarrow> CFGNode \<Rightarrow> DominatorTree" where
  "getOrCreateNode t n = (if n \<in> set (treeNodes t) then t else t\<lparr>treeNodes := treeNodes t @ [n]\<rparr>)"

definition assertNode :: "DominatorTree \<Rightarrow> CFGNode \<Rightarrow> error + CFGNode" where
  "assertNode t n = (if n \<in> set (treeNodes t) then Inr n else Inl NodeNotFound)"

definition addEdge :: "DominatorTree \<Rightarrow> CFGNode \<Rightarrow> CFGNode \<Rightarrow> DominatorTree" where
  "addEdge t d n = t\<lparr>treeEdges := treeEdges t @ [(d, n)]\<rparr>"

section \<open>Candidate extraction\<close>

definition getDominatorCandidates :: "ControlFlowGraph \<Rightarrow> CFGNode \<Rightarrow> CFGNode list" where
  "getDominatorCandidates cfg node =
     removeAll node
       (foldl (\<lambda>possibleDominators (predecessor, edge).
                 if \<not> isBackEdge edge predecessor \<and> \<not> isWorkGroupLoop edge
                 then emplaceSet predecessor possibleDominators else possibleDominators)
          [] (incomingEdges cfg node))"

section \<open>Direct resolution\<close>

type_synonym chain = "CFGNode option list"

record BuilderState =
  tree :: DominatorTree
  predecessors :: "(CFGNode \<times> CFGNode list) list"
  dominatorChains :: "(CFGNode \<times> chain) list"

definition initialState :: BuilderState where
  "initialState = \<lparr>tree = \<lparr>treeNodes = [], treeEdges = []\<rparr>, predecessors = [], dominatorChains = []\<rparr>"

text \<open>The body of the first loop, for one node of the graph.\<close>

definition directStep :: "ControlFlowGraph \<Rightarrow> BuilderState \<Rightarrow> CFGNode \<Rightarrow> BuilderState" where
  "directStep cfg s node =
     (let t1 = getOrCreateNode (tree s) node in
      case getDominatorCandidates cfg node of
        [] \<Rightarrow> s\<lparr>tree := t1, dominatorChains := emplace node [None] (dominatorChains s)\<rparr>
      | [d] \<Rightarrow>
          let t2 = addEdge (getOrCreateNode t1 d) d node;
              dc1 = emplace node [Some d] (dominatorChains s);
              dc2 = (case map_of dc1 d of None \<Rightarrow> dc1 | Some cd \<Rightarrow> appendTo node cd dc1)
          in s\<lparr>tree := t2, dominatorChains := dc2\<rparr>
      | d # d' # ds \<Rightarrow> s\<lparr>tree := t1, predecessors := emplace node (d # d' # ds) (predecessors s)\<rparr>)"

definition directPass :: "ControlFlowGraph \<Rightarrow> BuilderState" where
  "directPass cfg = foldl (directStep cfg) initialState (getNodes cfg)"

section \<open>Iterative merge resolution\<close>

text \<open>
  Chain extension for the entry of key \<open>k\<close>: a non-empty chain whose last entry is a node
  with a known chain gets that chain appended. (For a chain that ends in its own key the
  source inserts a vector into itself; the model appends the chain as it was. No chain of
  a graph with acyclic candidates ends in its own key.)
\<close>

definition extendChain :: "(CFGNode \<times> chain) list \<Rightarrow> CFGNode \<Rightarrow> (CFGNode \<times> chain) list" where
  "extendChain dc k =
     (case map_of dc k of
        None \<Rightarrow> dc
      | Some c \<Rightarrow>
          if c \<noteq> [] then
            (case last c of
               None \<Rightarrow> dc
             | Some q \<Rightarrow> (case map_of dc q of None \<Rightarrow> dc | Some cq \<Rightarrow> AList.update k (c @ cq) dc))
          else dc)"

definition extendChains :: "IterationOrder \<Rightarrow> (CFGNode \<times> chain) list \<Rightarrow> (CFGNode \<times> chain) list" where
  "extendChains ord dc = foldl extendChain dc (chainOrder ord (map fst dc))"

text \<open>
  The inner loop over the remaining candidates: \<open>find_if\<close> for the first entry of the working
  list that is the candidate or occurs in its chain, abort (\<open>None\<close>) when there is none,
  otherwise erase everything before it.
\<close>

fun mergeChains :: "chain \<Rightarrow> (CFGNode \<times> chain) list \<Rightarrow> chain option" where
  "mergeChains dominatorCandidates [] = Some dominatorCandidates"
| "mergeChains dominatorCandidates ((c, ch) # rest) =
     (let found = dropWhile (\<lambda>node. \<not> (Some c = node \<or> node \<in> set ch)) dominatorCandidates in
      if found = [] then None else mergeChains found rest)"

text \<open>
  The merge attempt for one pending node. \<open>predecessorDominatorChains\<close> is filled only when
  every candidate has a chain; it is traversed in its own order. (A pending candidate set
  has at least two elements; on an empty one the source would dereference the end iterator,
  the model leaves the node pending.)
\<close>

definition predecessorDominatorChains ::
    "IterationOrder \<Rightarrow> (CFGNode \<times> chain) list \<Rightarrow> CFGNode list \<Rightarrow> (CFGNode \<times> chain) list option" where
  "predecessorDominatorChains ord dc cands =
     (if \<forall>c \<in> set cands. map_of dc c \<noteq> None
      then Some (map (\<lambda>c. (c, case map_of dc c of None \<Rightarrow> [] | Some ch \<Rightarrow> ch)) (candidateOrder ord cands))
      else None)"

definition recordDominator :: "DominatorTree \<Rightarrow> CFGNode option \<Rightarrow> CFGNode \<Rightarrow> error + DominatorTree" where
  "recordDominator t first pendingNode =
     (case first of
        None \<Rightarrow> Inr t
      | Some d \<Rightarrow>
          (case assertNode t d of
             Inl e \<Rightarrow> Inl e
           | Inr d' \<Rightarrow> (case assertNode t pendingNode of
                          Inl e \<Rightarrow> Inl e
                        | Inr n' \<Rightarrow> Inr (addEdge t d' n'))))"

definition tryMerge :: "IterationOrder \<Rightarrow> BuilderState \<Rightarrow> CFGNode \<Rightarrow> CFGNode list \<Rightarrow> error + BuilderState" where
  "tryMerge ord s pendingNode cands =
     (case predecessorDominatorChains ord (dominatorChains s) cands of
        None \<Rightarrow> Inr s
      | Some [] \<Rightarrow> Inr s
      | Some ((c, ch) # rest) \<Rightarrow>
          (case mergeChains (Some c # ch) rest of
             None \<Rightarrow> Inr s
           | Some dominatorCandidates \<Rightarrow>
               if dominatorCandidates \<noteq> [] then
                 (case recordDominator (tree s) (hd dominatorCandidates) pendingNode of
                    Inl e \<Rightarrow> Inl e
                  | Inr t \<Rightarrow>
                      Inr (s\<lparr>tree := t,
                             dominatorChains := emplace pendingNode dominatorCandidates (dominatorChains s),
                             predecessors := AList.delete pendingNode (predecessors s)\<rparr>))
               else Inr s))"

text \<open>One traversal of the pending map; an erased entry is skipped.\<close>

fun mergePass :: "IterationOrder \<Rightarrow> CFGNode list \<Rightarrow> BuilderState \<Rightarrow> error + BuilderState" where
  "mergePass ord [] s = Inr s"
| "mergePass ord (k # ks) s =
     (case map_of (predecessors s) k of
        None \<Rightarrow> mergePass ord ks s
      | Some cands \<Rightarrow>
          (case tryMerge ord s k cands of
             Inl e \<Rightarrow> Inl e
           | Inr s' \<Rightarrow> mergePass ord ks s'))"

definition iteration :: "IterationOrder \<Rightarrow> BuilderState \<Rightarrow> error + BuilderState" where
  "iteration ord s =
     (let s1 = s\<lparr>dominatorChains := extendChains ord (dominatorChains s)\<rparr>
      in mergePass ord (pendingOrder ord (map fst (predecessors s1))) s1)"

text \<open>
  The outer \<open>while(!predecessors.empty())\<close> has no bound; \<open>None\<close> is the run that never
  leaves it.
\<close>

partial_function (option) mergeLoop :: "IterationOrder \<Rightarrow> BuilderState \<Rightarrow> (error + BuilderState) option" where
  "mergeLoop ord s =
     (if predecessors s = [] then Some (Inr s)
      else (case iteration ord s of
              Inl e \<Rightarrow> Some (Inl e)
            | Inr s' \<Rightarrow> mergeLoop ord s'))"

declare mergeLoop.simps [code]

definition createDominatorTree ::
    "IterationOrder \<Rightarrow> ControlFlowGraph \<Rightarrow> (error + DominatorTree) option" where
  "createDominatorTree ord cfg = map_option (map_sum id tree) (mergeLoop ord (directPass cfg))"

section \<open>Notions used in the statements and proofs\<close>

text \<open>
  The first entry of the chain of a node, when the node has a chain: the parent the builder
  has recorded for it, or the sentinel.
\<close>

definition heads :: "(CFGNode \<times> chain) list \<Rightarrow> CFGNode \<Rightarrow> CFGNode option option" where
  "heads dc n = map_option hd (map_of dc n)"

definition nonemptyChains :: "(CFGNode \<times> chain) list \<Rightarrow> bool" where
  "nonemptyChains dc \<longleftrightarrow> (\<forall>n c. map_of dc n = Some c \<longrightarrow> c \<noteq> [])"

text \<open>The tree edges that end in a node.\<close>

definition parentEdges :: "DominatorTree \<Rightarrow> CFGNode \<Rightarrow> (CFGNode \<times> CFGNode) list" where
  "parentEdges t n = filter (\<lambda>e. snd e = n) (treeEdges t)"

text \<open>
  What holds of the builder state once the nodes in \<open>N\<close> have gone through the direct pass,
  and in every later state: a pending node is a node with at least two candidates and no
  chain; every node of \<open>N\<close> is pending or has a chain; the edges into a node are given by the
  head of its chain; a node with at most one candidate has that candidate, or the sentinel,
  as head; the tree nodes are the nodes of \<open>N\<close> and their single candidates.
\<close>

definition shapeInv :: "ControlFlowGraph \<Rightarrow> CFGNode set \<Rightarrow> BuilderState \<Rightarrow> bool" where
  "shapeInv cfg N s \<longleftrightarrow>
     (\<forall>n cs. map_of (predecessors s) n = Some cs \<longrightarrow>
        n \<in> N \<and> cs = getDominatorCandidates cfg n \<and> 2 \<le> length cs \<and> heads (dominatorChains s) n = None) \<and>
     (\<forall>n \<in> N. map_of (predecessors s) n \<noteq> None \<or> heads (dominatorChains s) n \<noteq> None) \<and>
     (\<forall>n. heads (dominatorChains s) n \<noteq> None \<longrightarrow> n \<in> N) \<and>
     (\<forall>n. parentEdges (tree s) n =
        (case heads (dominatorChains s) n of Some (Some d) \<Rightarrow> [(d, n)] | _ \<Rightarrow> [])) \<and>
     (\<forall>n \<in> N. \<forall>h. length (getDominatorCandidates cfg n) \<le> 1 \<longrightarrow> heads (dominatorChains s) n = Some h \<longrightarrow>
        h = (case getDominatorCandidates cfg n of [] \<Rightarrow> None | d # ds \<Rightarrow> Some d)) \<and>
     nonemptyChains (dominatorChains s) \<and>
     distinct (treeNodes (tree s)) \<and>
     set (treeNodes (tree s)) = N \<union> {d. \<exists>n \<in> N. getDominatorCandidates cfg n = [d]}"

text \<open>The state after a successful merge attempt for node \<open>n\<close> with working list \<open>W\<close>.\<close>

definition merged :: "BuilderState \<Rightarrow> CFGNode \<Rightarrow> chain \<Rightarrow> BuilderState" where
  "merged s n W =
     s\<lparr>tree := (case hd W of None \<Rightarrow> tree s | Some d \<Rightarrow> addEdge (tree s) d n),
       dominatorChains := emplace n W (dominatorChains s),
       predecessors := AList.delete n (predecessors s)\<rparr>"

text \<open>
  A numbering \<open>rk\<close> of the nodes, extended to chain entries: the sentinel lies below every
  node.
\<close>

definition rko :: "(CFGNode \<Rightarrow> nat) \<Rightarrow> CFGNode option \<Rightarrow> nat" where
  "rko rk x = (case x of None \<Rightarrow> 0 | Some a \<Rightarrow> Suc (rk a))"

definition decreasing :: "(CFGNode \<Rightarrow> nat) \<Rightarrow> chain \<Rightarrow> bool" where
  "decreasing rk xs = sorted_wrt (\<lambda>x y. rko rk y < rko rk x) xs"

text \<open>
  The candidate edges of the graph form no cycle: there is a numbering of the nodes under
  which every candidate lies strictly below its node.
\<close>

definition topological :: "ControlFlowGraph \<Rightarrow> (CFGNode \<Rightarrow> nat) \<Rightarrow> bool" where
  "topological cfg rk \<longleftrightarrow>
     (\<forall>n \<in> set (getNodes cfg). \<forall>d \<in> set (getDominatorCandidates cfg n). rk d < rk n)"

text \<open>The edges of the graph join nodes of the graph.\<close>

definition closedGraph :: "ControlFlowGraph \<Rightarrow> bool" where
  "closedGraph cfg \<longleftrightarrow>
     (\<forall>n \<in> set (getNodes cfg). \<forall>pe \<in> set (incomingEdges cfg n). fst pe \<in> set (getNodes cfg))"

text \<open>A traversal of a container visits the keys of the container and nothing else.\<close>

definition traversal :: "IterationOrder \<Rightarrow> bool" where
  "traversal ord \<longleftrightarrow>
     (\<forall>ks. set (chainOrder ord ks) = set ks \<and> set (pendingOrder ord ks) = set ks \<and>
           set (candidateOrder ord ks) = set ks)"

text \<open>
  Every chain runs strictly downwards in the numbering, starting below its node, and holds
  only nodes of the graph.
\<close>

definition rankInv :: "ControlFlowGraph \<Rightarrow> (CFGNode \<Rightarrow> nat) \<Rightarrow> (CFGNode \<times> chain) list \<Rightarrow> bool" where
  "rankInv cfg rk dc \<longleftrightarrow>
     (\<forall>n c. map_of dc n = Some c \<longrightarrow>
        decreasing rk (Some n # c) \<and> (\<forall>a. Some a \<in> set c \<longrightarrow> a \<in> set (getNodes cfg)))"

text \<open>
  The variant of the outer loop: a pending node weighs more than any resolved one, and a
  resolved node weighs the less the longer its chain is.
\<close>

definition weight :: "(CFGNode \<Rightarrow> nat) \<Rightarrow> (CFGNode \<times> chain) list \<Rightarrow> CFGNode \<Rightarrow> nat" where
  "weight rk dc n = (case map_of dc n of None \<Rightarrow> rk n + 2 | Some c \<Rightarrow> rk n + 1 - length c)"

definition potential :: "ControlFlowGraph \<Rightarrow> (CFGNode \<Rightarrow> nat) \<Rightarrow> (CFGNode \<times> chain) list \<Rightarrow> nat" where
  "potential cfg rk dc = sum (weight rk dc) (set (getNodes cfg))"

definition fullInv :: "ControlFlowGraph \<Rightarrow> (CFGNode \<Rightarrow> nat) \<Rightarrow> BuilderState \<Rightarrow> bool" where
  "fullInv cfg rk s \<longleftrightarrow>
     shapeInv cfg (set (getNodes cfg)) s \<and> rankInv cfg rk (dominatorChains s)"

definition chainInv :: "ControlFlowGraph \<Rightarrow> (CFGNode \<Rightarrow> nat) \<Rightarrow> (CFGNode \<times> chain) list \<Rightarrow> bool" where
  "chainInv cfg rk dc \<longleftrightarrow>
     rankInv cfg rk dc \<and> nonemptyChains dc \<and> (\<forall>n. map_of dc n \<noteq> None \<longrightarrow> n \<in> set (getNodes cfg))"

text \<open>Example graphs: edge data, and the diamond 0\<rightarrow>1, 0\<rightarrow>2, 1\<rightarrow>3, 2\<rightarrow>3.\<close>

definition plainEdge :: CFGRelation where
  "plainEdge = \<lparr>isBackEdge = (\<lambda>source. False), isWorkGroupLoop = False\<rparr>"

definition backEdgeFrom :: "CFGNode \<Rightarrow> CFGRelation" where
  "backEdgeFrom b = \<lparr>isBackEdge = (\<lambda>source. source = b), isWorkGroupLoop = False\<rparr>"

definition workGroupEdge :: CFGRelation where
  "workGroupEdge = \<lparr>isBackEdge = (\<lambda>source. False), isWorkGroupLoop = True\<rparr>"

definition diamond :: ControlFlowGraph where
  "diamond = \<lparr>getNodes = [0, 1, 2, 3],
     incomingEdges = (\<lambda>n. if n = 1 then [(0, plainEdge)] else if n = 2 then [(0, plainEdge)]
        else if n = 3 then [(1, plainEdge), (2, plainEdge)] else [])\<rparr>"

text \<open>
  The parent of a node in a tree, and the walk along parent links: \<open>climb t k n\<close> is the
  parentless node reached from \<open>n\<close> in at most \<open>k\<close> steps, if there is one.
\<close>

definition parentOf :: "DominatorTree \<Rightarrow> CFGNode \<Rightarrow> CFGNode option" where
  "parentOf t n = (case parentEdges t n of [] \<Rightarrow> None | e # es \<Rightarrow> Some (fst e))"

fun climb :: "DominatorTree \<Rightarrow> nat \<Rightarrow> CFGNode \<Rightarrow> CFGNode option" where
  "climb t 0 n = (case parentOf t n of None \<Rightarrow> Some n | Some d \<Rightarrow> None)"
| "climb t (Suc k) n = (case parentOf t n of None \<Rightarrow> Some n | Some d \<Rightarrow> climb t k d)"

text \<open>
  The states the builder passes through from the end of the direct pass on: the state after
  the direct pass, a state after chain extension, and a state after a merge attempt.
\<close>

inductive reached :: "IterationOrder \<Rightarrow> ControlFlowGraph \<Rightarrow> BuilderState \<Rightarrow> bool"
  for ord :: IterationOrder and cfg :: ControlFlowGraph where
  direct: "reached ord cfg (directPass cfg)"
| extended: "reached ord cfg s \<Longrightarrow>
     reached ord cfg (s\<lparr>dominatorChains := extendChains ord (dominatorChains s)\<rparr>)"
| attempted: "reached ord cfg s \<Longrightarrow> map_of (predecessors s) k = Some cs \<Longrightarrow>
     tryMerge ord s k cs = Inr s' \<Longrightarrow> reached ord cfg s'"

text \<open>
  Node 1 has two parallel edges from node 0, a self-loop, a back edge from node 2 and a
  work-group-loop edge from node 3.
\<close>

definition parallelGraph :: ControlFlowGraph where
  "parallelGraph = \<lparr>getNodes = [0, 1, 2, 3],
     incomingEdges = (\<lambda>n.
        if n = 1 then [(0, plainEdge), (0, plainEdge), (1, plainEdge), (2, backEdgeFrom 2), (3, workGroupEdge)]
        else if n = 2 then [(1, plainEdge)]
        else if n = 3 then [(2, plainEdge)] else [])\<rparr>"

text \<open>A loop between the nodes 1 and 2 that hangs off the entry 0, with no edge marked as back edge.\<close>

definition loopGraph :: ControlFlowGraph where
  "loopGraph = \<lparr>getNodes = [0, 1, 2],
     incomingEdges = (\<lambda>n.
        if n = 1 then [(0, plainEdge), (2, plainEdge)]
        else if n = 2 then [(1, plainEdge)] else [])\<rparr>"

text \<open>Node 2 is reached from the two roots 0 and 1.\<close>

definition twoRoots :: ControlFlowGraph where
  "twoRoots = \<lparr>getNodes = [0, 1, 2],
     incomingEdges = (\<lambda>n. if n = 2 then [(0, plainEdge), (1, plainEdge)] else [])\<rparr>"

text \<open>
  Paths of a relation, as lists, and relations along which a measure falls. The parent links
  of the builder form such a relation, which moreover is single-valued.
\<close>

definition pathIn :: "('a \<times> 'a) set \<Rightarrow> 'a list \<Rightarrow> bool" where
  "pathIn R xs = successively (\<lambda>x y. (x, y) \<in> R) xs"

definition descending :: "('a \<times> 'a) set \<Rightarrow> ('a \<Rightarrow> nat) \<Rightarrow> bool" where
  "descending R m \<longleftrightarrow> (\<forall>x y. (x, y) \<in> R \<longrightarrow> m y < m x)"

text \<open>
  \<open>h\<close> is reached from every element of \<open>C\<close>, and whatever is reached from every element of
  \<open>C\<close> is reached from \<open>h\<close>.
\<close>

definition nearest :: "('a \<times> 'a) set \<Rightarrow> 'a set \<Rightarrow> 'a \<Rightarrow> bool" where
  "nearest R C h \<longleftrightarrow> (\<forall>c \<in> C. (c, h) \<in> R\<^sup>*) \<and> (\<forall>x. (\<forall>c \<in> C. (c, x) \<in> R\<^sup>*) \<longrightarrow> (h, x) \<in> R\<^sup>*)"

text \<open>The parent links given by the heads of the chains, with the sentinel as an end point.\<close>

definition up :: "(CFGNode \<Rightarrow> CFGNode option option) \<Rightarrow> (CFGNode option \<times> CFGNode option) set" where
  "up h = {(x, y). \<exists>a. x = Some a \<and> h a = Some y}"

text \<open>
  Every chain, with its node in front, is a path of parent links; the head recorded for a
  node with at least two candidates is nearest to its candidates.
\<close>

definition linkedInv :: "(CFGNode \<times> chain) list \<Rightarrow> bool" where
  "linkedInv dc \<longleftrightarrow> (\<forall>n c. map_of dc n = Some c \<longrightarrow> pathIn (up (heads dc)) (Some n # c))"

definition ncaInv :: "ControlFlowGraph \<Rightarrow> (CFGNode \<times> chain) list \<Rightarrow> bool" where
  "ncaInv cfg dc \<longleftrightarrow>
     (\<forall>n h. heads dc n = Some h \<longrightarrow> 2 \<le> length (getDominatorCandidates cfg n) \<longrightarrow>
        nearest (up (heads dc)) (Some ` set (getDominatorCandidates cfg n)) h)"

definition goodInv :: "ControlFlowGraph \<Rightarrow> (CFGNode \<Rightarrow> nat) \<Rightarrow> BuilderState \<Rightarrow> bool" where
  "goodInv cfg rk s \<longleftrightarrow>
     fullInv cfg rk s \<and> linkedInv (dominatorChains s) \<and> ncaInv cfg (dominatorChains s)"

text \<open>
  Ancestors in a tree with edge set \<open>E\<close> (pairs of dominator and dominated node): \<open>x\<close> is an
  ancestor of \<open>c\<close>, or \<open>c\<close> itself, when \<open>(x, c)\<close> is in the reflexive transitive closure.
\<close>

definition commonAncestor :: "(CFGNode \<times> CFGNode) set \<Rightarrow> CFGNode list \<Rightarrow> CFGNode \<Rightarrow> bool" where
  "commonAncestor E cs x \<longleftrightarrow> (\<forall>c \<in> set cs. (x, c) \<in> E\<^sup>*)"

definition nearestCommonAncestor ::
    "(CFGNode \<times> CFGNode) set \<Rightarrow> CFGNode list \<Rightarrow> CFGNode option \<Rightarrow> bool" where
  "nearestCommonAncestor E cs h =
     (case h of
        Some d \<Rightarrow> commonAncestor E cs d \<and> (\<forall>x. commonAncestor E cs x \<longrightarrow> (x, d) \<in> E\<^sup>*)
      | None \<Rightarrow> (\<forall>x. \<not> commonAncestor E cs x))"

definition edgesMatchHeads :: "DominatorTree \<Rightarrow> (CFGNode \<Rightarrow> CFGNode option option) \<Rightarrow> bool" where
  "edgesMatchHeads t h \<longleftrightarrow> (\<forall>d a. (d, a) \<in> set (treeEdges t) \<longleftrightarrow> h a = Some (Some d))"

text \<open>
  What the graph says about the tree: edges rise in the numbering, a node has at most one
  incoming edge, a node without candidates has no parent, a node with one candidate has it
  as parent, and the parent of a node with several candidates is their nearest common
  ancestor (none when they have no common ancestor).
\<close>

definition characterised :: "ControlFlowGraph \<Rightarrow> (CFGNode \<Rightarrow> nat) \<Rightarrow> DominatorTree \<Rightarrow> bool" where
  "characterised cfg rk t \<longleftrightarrow>
     (\<forall>e \<in> set (treeEdges t). rk (fst e) < rk (snd e)) \<and>
     (\<forall>n. parentEdges t n = (case parentOf t n of None \<Rightarrow> [] | Some d \<Rightarrow> [(d, n)])) \<and>
     (\<forall>n. n \<notin> set (getNodes cfg) \<longrightarrow> parentOf t n = None) \<and>
     (\<forall>n \<in> set (getNodes cfg).
        case getDominatorCandidates cfg n of
          [] \<Rightarrow> parentOf t n = None
        | [d] \<Rightarrow> parentOf t n = Some d
        | d # d' # ds \<Rightarrow>
            nearestCommonAncestor (set (treeEdges t)) (getDominatorCandidates cfg n) (parentOf t n))"

text \<open>Containers traversed in the reverse of the insertion order.\<close>

definition reverseOrder :: IterationOrder where
  "reverseOrder = \<lparr>chainOrder = rev, pendingOrder = rev, candidateOrder = rev\<rparr>"

text \<open>The diamond with its node container traversed in the order \<open>ns\<close>.\<close>

definition diamondIn :: "CFGNode list \<Rightarrow> ControlFlowGraph" where
  "diamondIn ns = diamond\<lparr>getNodes := ns\<rparr>"

text \<open>The chain of a node in the chain map, empty when there is none.\<close>

definition chainOf :: "(CFGNode \<times> chain) list \<Rightarrow> CFGNode \<Rightarrow> chain" where
  "chainOf dc c = (case map_of dc c of None \<Rightarrow> [] | Some ch \<Rightarrow> ch)"

text \<open>
  The merge attempt in the words of the specification (4.3), to be compared with
  \<open>mergeChains\<close>: for a candidate C, the position of the first entry of the working list
  that equals C or appears in the chain of C, if there is one; the working list loses all
  entries before that position, and the attempt is given up when there is no such entry.
\<close>

definition firstMatch :: "chain \<Rightarrow> CFGNode \<Rightarrow> chain \<Rightarrow> nat option" where
  "firstMatch workingList C chainC =
     (if \<exists>x \<in> set workingList. x = Some C \<or> x \<in> set chainC
      then Some (length (takeWhile (\<lambda>x. \<not> (x = Some C \<or> x \<in> set chainC)) workingList))
      else None)"

fun specWorkingList :: "chain \<Rightarrow> (CFGNode \<times> chain) list \<Rightarrow> chain option" where
  "specWorkingList workingList [] = Some workingList"
| "specWorkingList workingList ((C, chainC) # remaining) =
     (case firstMatch workingList C chainC of
        None \<Rightarrow> None
      | Some i \<Rightarrow> specWorkingList (drop i workingList) remaining)"

text \<open>
  The candidate edges of the graph: the pairs of a dominator candidate and its node.
\<close>

definition candidateEdges :: "ControlFlowGraph \<Rightarrow> (CFGNode \<times> CFGNode) list" where
  "candidateEdges cfg =
     concat (map (\<lambda>n. map (\<lambda>d. (d, n)) (getDominatorCandidates cfg n)) (getNodes cfg))"

text \<open>
  The graph has the single entry \<open>r\<close>: \<open>r\<close> is a node without candidates, and every node is
  reached from \<open>r\<close> along candidate edges. (Every other node then has a candidate.)
\<close>

definition singleEntry :: "ControlFlowGraph \<Rightarrow> CFGNode \<Rightarrow> bool" where
  "singleEntry cfg r \<longleftrightarrow>
     r \<in> set (getNodes cfg) \<and> getDominatorCandidates cfg r = [] \<and>
     (\<forall>n \<in> set (getNodes cfg). (r, n) \<in> (set (candidateEdges cfg))\<^sup>*)"

text \<open>
  The head recorded for a node is reached along parent links from each of its candidates,
  and only a node without candidates has the sentinel as head.
\<close>

definition commonInv :: "ControlFlowGraph \<Rightarrow> (CFGNode \<times> chain) list \<Rightarrow> bool" where
  "commonInv cfg dc \<longleftrightarrow>
     (\<forall>n h. heads dc n = Some h \<longrightarrow>
        (\<forall>c \<in> set (getDominatorCandidates cfg n). (Some c, h) \<in> (up (heads dc))\<^sup>*))"

definition sentinelInv :: "ControlFlowGraph \<Rightarrow> (CFGNode \<times> chain) list \<Rightarrow> bool" where
  "sentinelInv cfg dc \<longleftrightarrow> (\<forall>n. heads dc n = Some None \<longrightarrow> getDominatorCandidates cfg n = [])"

definition soundInv :: "ControlFlowGraph \<Rightarrow> BuilderState \<Rightarrow> bool" where
  "soundInv cfg s \<longleftrightarrow>
     shapeInv cfg (set (getNodes cfg)) s \<and> linkedInv (dominatorChains s) \<and>
     commonInv cfg (dominatorChains s) \<and> sentinelInv cfg (dominatorChains s)"

section \<open>Invariants of the builder\<close>

subsection \<open>The shape of the builder state\<close>

lemma map_of_emplace:
  "map_of (emplace k v m) = (case map_of m k of None \<Rightarrow> (map_of m)(k \<mapsto> v) | Some old \<Rightarrow> map_of m)"
  by (auto simp: emplace_def fun_eq_iff map_add_def split: option.splits)

lemma map_of_appendTo:
  "map_of (appendTo k ys m) = (case map_of m k of None \<Rightarrow> map_of m | Some c \<Rightarrow> (map_of m)(k \<mapsto> c @ ys))"
  by (auto simp: appendTo_def update_conv' split: option.splits)

lemma cands_foldl:
  "set (foldl (\<lambda>possibleDominators (predecessor, edge).
                 if \<not> isBackEdge edge predecessor \<and> \<not> isWorkGroupLoop edge
                 then emplaceSet predecessor possibleDominators else possibleDominators) acc es)
   = set acc \<union> {p. \<exists>e. (p, e) \<in> set es \<and> \<not> isBackEdge e p \<and> \<not> isWorkGroupLoop e}"
  by (induction es arbitrary: acc) (auto simp: emplaceSet_def)

lemma cands_foldl_distinct:
  "distinct acc \<Longrightarrow> distinct (foldl (\<lambda>possibleDominators (predecessor, edge).
                 if \<not> isBackEdge edge predecessor \<and> \<not> isWorkGroupLoop edge
                 then emplaceSet predecessor possibleDominators else possibleDominators) acc es)"
  by (induction es arbitrary: acc) (auto simp: emplaceSet_def)

lemma candidates_set:
  "set (getDominatorCandidates cfg n) =
     {p. \<exists>e. (p, e) \<in> set (incomingEdges cfg n) \<and> \<not> isBackEdge e p \<and> \<not> isWorkGroupLoop e} - {n}"
  by (simp add: getDominatorCandidates_def cands_foldl)

lemma candidates_distinct: "distinct (getDominatorCandidates cfg n)"
  by (simp add: getDominatorCandidates_def cands_foldl_distinct distinct_removeAll)

lemma shapeInv_initial: "shapeInv cfg {} initialState"
  by (simp add: shapeInv_def initialState_def heads_def nonemptyChains_def parentEdges_def)

lemma heads_emplace_new:
  "heads dc n = None \<Longrightarrow> heads (emplace n c dc) = (heads dc)(n \<mapsto> hd c)"
  by (auto simp: heads_def map_of_emplace fun_eq_iff split: option.splits)

lemma heads_appendTo:
  "nonemptyChains dc \<Longrightarrow> heads (appendTo n ys dc) = heads dc"
  by (auto simp: heads_def map_of_appendTo fun_eq_iff nonemptyChains_def split: option.splits)

lemma nonempty_emplace: "nonemptyChains dc \<Longrightarrow> c \<noteq> [] \<Longrightarrow> nonemptyChains (emplace n c dc)"
  by (auto simp: nonemptyChains_def map_of_emplace split: option.splits if_splits)

lemma nonempty_appendTo: "nonemptyChains dc \<Longrightarrow> nonemptyChains (appendTo n ys dc)"
  by (auto simp: nonemptyChains_def map_of_appendTo split: option.splits if_splits)

lemma candidates_not_self: "node \<notin> set (getDominatorCandidates cfg node)"
  by (simp add: getDominatorCandidates_def)

lemma shapeInv_directStep:
  assumes inv: "shapeInv cfg N s" and new: "x \<notin> N"
  shows "shapeInv cfg (insert x N) (directStep cfg s x)"
proof -
  have hx: "heads (dominatorChains s) x = None" and px: "map_of (predecessors s) x = None"
  proof -
    show "heads (dominatorChains s) x = None"
      using inv new unfolding shapeInv_def by (metis)
    show "map_of (predecessors s) x = None"
      using inv new unfolding shapeInv_def by (metis option.exhaust)
  qed
  have ex: "parentEdges (tree s) x = []"
    using inv hx unfolding shapeInv_def by simp
  show ?thesis
  proof (cases "getDominatorCandidates cfg x")
    case Nil
    then show ?thesis
      using inv new hx px
      unfolding shapeInv_def directStep_def
      apply (simp add: heads_emplace_new nonempty_emplace getOrCreateNode_def parentEdges_def )
      apply (intro conjI)
      apply auto
      done
  next
    case (Cons d ds)
    note c = Cons
    have dx: "d \<noteq> x" using candidates_not_self[of x cfg] c by auto
    show ?thesis
    proof (cases ds)
      case Nil
      have ne: "nonemptyChains (dominatorChains s)" using inv unfolding shapeInv_def by simp
      have h1: "heads (case map_of (emplace x [Some d] (dominatorChains s)) d of
                  None \<Rightarrow> emplace x [Some d] (dominatorChains s)
                | Some cd \<Rightarrow> appendTo x cd (emplace x [Some d] (dominatorChains s)))
               = (heads (dominatorChains s))(x \<mapsto> Some d)"
        using hx ne by (simp add: heads_appendTo heads_emplace_new nonempty_emplace split: option.splits)
      have n1: "nonemptyChains (case map_of (emplace x [Some d] (dominatorChains s)) d of
                  None \<Rightarrow> emplace x [Some d] (dominatorChains s)
                | Some cd \<Rightarrow> appendTo x cd (emplace x [Some d] (dominatorChains s)))"
        using ne by (simp add: nonempty_appendTo nonempty_emplace split: option.splits)
      show ?thesis
        using inv new hx px ex c Nil dx
        unfolding shapeInv_def directStep_def
        apply (simp add: h1 n1 Let_def getOrCreateNode_def addEdge_def parentEdges_def)
        apply (intro conjI)
        apply auto
        done
    next
      case (Cons d' ds')
      show ?thesis
        using inv new hx px ex c Cons
        unfolding shapeInv_def directStep_def
        apply (simp add: Let_def getOrCreateNode_def parentEdges_def map_of_emplace)
        apply blast
        done
    qed
  qed
qed

lemma shapeInv_foldl:
  "shapeInv cfg N s \<Longrightarrow> distinct ns \<Longrightarrow> set ns \<inter> N = {} \<Longrightarrow>
   shapeInv cfg (N \<union> set ns) (foldl (directStep cfg) s ns)"
proof (induction ns arbitrary: N s)
  case Nil then show ?case by simp
next
  case (Cons x xs)
  have "shapeInv cfg (insert x N) (directStep cfg s x)"
    using Cons.prems by (intro shapeInv_directStep) auto
  from Cons.IH[OF this] Cons.prems show ?case by auto
qed

lemma shapeInv_directPass:
  "distinct (getNodes cfg) \<Longrightarrow> shapeInv cfg (set (getNodes cfg)) (directPass cfg)"
  using shapeInv_foldl[OF shapeInv_initial, of "getNodes cfg" cfg] by (simp add: directPass_def)

lemma extendChain_heads:
  "nonemptyChains dc \<Longrightarrow> heads (extendChain dc k) = heads dc \<and> nonemptyChains (extendChain dc k)"
  by (auto simp: extendChain_def heads_def nonemptyChains_def update_conv' fun_eq_iff
           split: option.splits)

lemma foldl_extendChain_heads:
  "nonemptyChains dc \<Longrightarrow>
   heads (foldl extendChain dc ks) = heads dc \<and> nonemptyChains (foldl extendChain dc ks)"
proof (induction ks arbitrary: dc)
  case Nil then show ?case by simp
next
  case (Cons k ks)
  from extendChain_heads[OF Cons.prems, of k] Cons.IH[of "extendChain dc k"]
  show ?case by simp
qed

lemma shapeInv_chains:
  "shapeInv cfg N s \<Longrightarrow> heads dc' = heads (dominatorChains s) \<Longrightarrow> nonemptyChains dc' \<Longrightarrow>
   shapeInv cfg N (s\<lparr>dominatorChains := dc'\<rparr>)"
  by (simp add: shapeInv_def)

lemma shapeInv_extendChains:
  "shapeInv cfg N s \<Longrightarrow> shapeInv cfg N (s\<lparr>dominatorChains := extendChains ord (dominatorChains s)\<rparr>)"
  using foldl_extendChain_heads[of "dominatorChains s"]
  by (intro shapeInv_chains) (auto simp: extendChains_def shapeInv_def)

lemma tryMerge_cases:
  obtains (unchanged) "tryMerge ord s n cs = Inr s"
  | (failed) c ch rest W where
      "predecessorDominatorChains ord (dominatorChains s) cs = Some ((c, ch) # rest)"
      "mergeChains (Some c # ch) rest = Some W" "W \<noteq> []"
      "tryMerge ord s n cs = Inl NodeNotFound"
      "\<not> (\<forall>d. hd W = Some d \<longrightarrow> d \<in> set (treeNodes (tree s)) \<and> n \<in> set (treeNodes (tree s)))"
  | (resolved) c ch rest W where
      "predecessorDominatorChains ord (dominatorChains s) cs = Some ((c, ch) # rest)"
      "mergeChains (Some c # ch) rest = Some W" "W \<noteq> []"
      "tryMerge ord s n cs = Inr (merged s n W)"
      "\<forall>d. hd W = Some d \<longrightarrow> d \<in> set (treeNodes (tree s)) \<and> n \<in> set (treeNodes (tree s))"
proof (cases "predecessorDominatorChains ord (dominatorChains s) cs")
  case None
  then show ?thesis by (intro unchanged) (simp add: tryMerge_def)
next
  case (Some l)
  show ?thesis
  proof (cases l)
    case Nil
    with Some show ?thesis by (intro unchanged) (simp add: tryMerge_def)
  next
    case (Cons p rest)
    obtain c ch where p: "p = (c, ch)" by (cases p)
    note l = Some[unfolded Cons p]
    show ?thesis
    proof (cases "mergeChains (Some c # ch) rest")
      case None
      with l show ?thesis by (intro unchanged) (simp add: tryMerge_def)
    next
      case (Some W)
      show ?thesis
      proof (cases "W = []")
        case True
        with l Some show ?thesis by (intro unchanged) (simp add: tryMerge_def)
      next
        case False
        show ?thesis
        proof (cases "\<forall>d. hd W = Some d \<longrightarrow> d \<in> set (treeNodes (tree s)) \<and> n \<in> set (treeNodes (tree s))")
          case True
          have "tryMerge ord s n cs = Inr (merged s n W)"
            using l Some False True
            by (auto simp: tryMerge_def merged_def recordDominator_def assertNode_def split: option.splits)
          with l Some False True show ?thesis by (intro resolved)
        next
          case False
          have "tryMerge ord s n cs = Inl NodeNotFound"
            using l Some \<open>W \<noteq> []\<close> False
            by (auto simp: tryMerge_def recordDominator_def assertNode_def split: option.splits)
          with l Some \<open>W \<noteq> []\<close> False show ?thesis by (intro failed)
        qed
      qed
    qed
  qed
qed

lemma shapeInv_merged:
  assumes inv: "shapeInv cfg N s" and p: "map_of (predecessors s) n = Some cs" and ne: "W \<noteq> []"
  shows "shapeInv cfg N (merged s n W)"
proof -
  have hn: "heads (dominatorChains s) n = None" and nN: "n \<in> N"
    and len: "2 \<le> length (getDominatorCandidates cfg n)"
    using inv p unfolding shapeInv_def by blast+
  have en: "parentEdges (tree s) n = []"
    using inv hn unfolding shapeInv_def by simp
  show ?thesis
    using inv hn nN len en ne
    unfolding shapeInv_def merged_def
    apply (simp add: heads_emplace_new nonempty_emplace delete_conv' parentEdges_def addEdge_def
                split: option.splits)
    done
qed

lemma shapeInv_tryMerge:
  assumes "shapeInv cfg N s" "map_of (predecessors s) n = Some cs" "tryMerge ord s n cs = Inr s'"
  shows "shapeInv cfg N s'"
  using assms by (cases rule: tryMerge_cases[of ord s n cs]) (auto intro: shapeInv_merged)

lemma mergePass_invariant:
  assumes step: "\<And>s k cs s'. I s \<Longrightarrow> map_of (predecessors s) k = Some cs \<Longrightarrow>
                   tryMerge ord s k cs = Inr s' \<Longrightarrow> I s'"
  shows "I s \<Longrightarrow> mergePass ord ks s = Inr s' \<Longrightarrow> I s'"
proof (induction ks arbitrary: s)
  case Nil then show ?case by simp
next
  case (Cons k ks)
  show ?case
  proof (cases "map_of (predecessors s) k")
    case None
    with Cons show ?thesis by simp
  next
    case (Some cs)
    with Cons.prems obtain s1 where t: "tryMerge ord s k cs = Inr s1" and r: "mergePass ord ks s1 = Inr s'"
      by (auto split: sum.splits)
    from step[OF Cons.prems(1) Some t] have "I s1" .
    from Cons.IH[OF this r] show ?thesis .
  qed
qed

lemma shapeInv_iteration:
  assumes "shapeInv cfg N s" "iteration ord s = Inr s'"
  shows "shapeInv cfg N s'"
proof -
  let ?s1 = "s\<lparr>dominatorChains := extendChains ord (dominatorChains s)\<rparr>"
  have 1: "shapeInv cfg N ?s1" using assms(1) by (rule shapeInv_extendChains)
  have 2: "mergePass ord (pendingOrder ord (map fst (predecessors ?s1))) ?s1 = Inr s'"
    using assms(2) by (simp add: iteration_def Let_def)
  show ?thesis
    by (rule mergePass_invariant[where I = "shapeInv cfg N", OF _ 1 2]) (rule shapeInv_tryMerge)
qed

lemma mergeLoop_invariant_aux:
  assumes step: "\<And>s s'. I s \<Longrightarrow> iteration ord s = Inr s' \<Longrightarrow> I s'"
    and run: "mergeLoop o' s = Some r"
  shows "o' = ord \<Longrightarrow> I s \<Longrightarrow> r = Inr s' \<Longrightarrow> I s' \<and> predecessors s' = []"
  using run
proof (induction o' s r arbitrary: s' rule: mergeLoop.raw_induct[rotated 1, consumes 1])
  case (1 f o' s r)
  show ?case
  proof (cases "predecessors s = []")
    case True
    with 1 show ?thesis by simp
  next
    case False
    with 1(2) 1(5) obtain s1 where it: "iteration o' s = Inr s1" and f: "f o' s1 = Some r"
      by (auto split: sum.splits)
    from step[OF 1(4)] it 1(3) have "I s1" by simp
    from 1(1)[OF f 1(3) this 1(5)] show ?thesis .
  qed
qed

lemma mergeLoop_invariant:
  assumes "\<And>s s'. I s \<Longrightarrow> iteration ord s = Inr s' \<Longrightarrow> I s'"
    and "mergeLoop ord s = Some (Inr s')" and "I s"
  shows "I s' \<and> predecessors s' = []"
  using mergeLoop_invariant_aux[where I = I, OF assms(1) assms(2) refl assms(3) refl] by simp

lemma shapeInv_result:
  assumes "distinct (getNodes cfg)" and "mergeLoop ord (directPass cfg) = Some (Inr s')"
  shows "shapeInv cfg (set (getNodes cfg)) s' \<and> predecessors s' = []"
proof (rule mergeLoop_invariant[where I = "shapeInv cfg (set (getNodes cfg))", OF _ assms(2)])
  show "shapeInv cfg (set (getNodes cfg)) (directPass cfg)"
    using assms(1) by (rule shapeInv_directPass)
qed (rule shapeInv_iteration)

subsection \<open>Chains run downwards in the numbering\<close>

lemma closed_candidates:
  "closedGraph cfg \<Longrightarrow> n \<in> set (getNodes cfg) \<Longrightarrow> d \<in> set (getDominatorCandidates cfg n) \<Longrightarrow>
   d \<in> set (getNodes cfg)"
  unfolding closedGraph_def candidates_set by fastforce

lemma decreasing_length: "decreasing rk (x # xs) \<Longrightarrow> length xs \<le> rko rk x"
proof (induction xs arbitrary: x)
  case Nil then show ?case by simp
next
  case (Cons y ys)
  then have "decreasing rk (y # ys)" and "rko rk y < rko rk x" by (auto simp: decreasing_def)
  with Cons.IH[of y] show ?case by simp
qed

lemma decreasing_last:
  "decreasing rk xs \<Longrightarrow> x \<in> set xs \<Longrightarrow> rko rk (last xs) \<le> rko rk x"
  by (induction xs) (auto simp: decreasing_def intro: less_imp_le)

lemma decreasing_below_head:
  "decreasing rk (x # xs) \<Longrightarrow> y \<in> set xs \<Longrightarrow> rko rk y < rko rk x"
  by (simp add: decreasing_def)

lemma decreasing_append:
  assumes "decreasing rk (x # c)" "c \<noteq> []" "decreasing rk (last c # cq)"
  shows "decreasing rk (x # c @ cq)"
proof -
  have "rko rk z < rko rk y" if "y \<in> set (x # c)" "z \<in> set cq" for y z
  proof -
    have "rko rk z < rko rk (last c)" using assms(3) that(2) by (rule decreasing_below_head)
    moreover have "rko rk (last (x # c)) \<le> rko rk y" using assms(1) that(1) by (rule decreasing_last)
    ultimately show ?thesis using assms(2) by simp
  qed
  moreover have "decreasing rk cq" using assms(3) by (simp add: decreasing_def)
  ultimately have "decreasing rk ((x # c) @ cq)"
    using assms(1) unfolding decreasing_def sorted_wrt_append by blast
  then show ?thesis by simp
qed

lemma rankInv_extendChain:
  assumes "rankInv cfg rk dc"
  shows "rankInv cfg rk (extendChain dc k)"
proof (cases "extendChain dc k = dc")
  case True then show ?thesis using assms by simp
next
  case False
  then obtain c q cq where c: "map_of dc k = Some c" "c \<noteq> []" "last c = Some q" "map_of dc q = Some cq"
    and e: "extendChain dc k = AList.update k (c @ cq) dc"
    by (auto simp: extendChain_def split: option.splits if_splits)
  have 1: "decreasing rk (Some k # c)" and 2: "decreasing rk (Some q # cq)"
    and 3: "\<forall>a. Some a \<in> set c \<longrightarrow> a \<in> set (getNodes cfg)"
    and 4: "\<forall>a. Some a \<in> set cq \<longrightarrow> a \<in> set (getNodes cfg)"
    using assms c unfolding rankInv_def by blast+
  have "decreasing rk (Some k # c @ cq)"
    using 1 c(2) 2 c(3) by (intro decreasing_append) simp_all
  with 3 4 assms show ?thesis
    unfolding e rankInv_def by (auto simp: update_conv')
qed

lemma rko_simps [simp]: "rko rk None = 0" "rko rk (Some a) = Suc (rk a)"
  by (simp_all add: rko_def)

lemma rankInv_directStep:
  assumes r: "rankInv cfg rk (dominatorChains s)" and x: "x \<in> set (getNodes cfg)"
    and cl: "closedGraph cfg" and topo: "topological cfg rk"
    and hx: "map_of (dominatorChains s) x = None"
  shows "rankInv cfg rk (dominatorChains (directStep cfg s x))"
proof (cases "getDominatorCandidates cfg x")
  case Nil
  then show ?thesis using r hx
    by (auto simp: directStep_def rankInv_def map_of_emplace decreasing_def)
next
  case (Cons d ds)
  note c = Cons
  show ?thesis
  proof (cases ds)
    case Nil
    have dx: "d \<noteq> x" using candidates_not_self[of x cfg] c by auto
    have dN: "d \<in> set (getNodes cfg)" using closed_candidates[OF cl x, of d] c by simp
    have lt: "rk d < rk x" using topo x c unfolding topological_def by auto
    have base: "rankInv cfg rk (emplace x [Some d] (dominatorChains s))"
      using r hx dN lt by (auto simp: rankInv_def map_of_emplace decreasing_def)
    show ?thesis
    proof (cases "map_of (dominatorChains s) d")
      case None
      then show ?thesis using base c Nil hx dx
        by (simp add: directStep_def Let_def map_of_emplace)
    next
      case (Some cd)
      have d1: "decreasing rk (Some d # cd)" and d2: "\<forall>a. Some a \<in> set cd \<longrightarrow> a \<in> set (getNodes cfg)"
        using r Some unfolding rankInv_def by blast+
      have "decreasing rk (Some x # [Some d] @ cd)"
        using lt d1 by (intro decreasing_append) (simp_all add: decreasing_def)
      then have "rankInv cfg rk (appendTo x cd (emplace x [Some d] (dominatorChains s)))"
        using base d2 dN hx
        by (auto simp: rankInv_def map_of_appendTo map_of_emplace split: option.splits if_splits)
      then show ?thesis using c Nil hx dx Some
        by (simp add: directStep_def Let_def map_of_emplace)
    qed
  next
    case (Cons d' ds')
    then show ?thesis using r c by (simp add: directStep_def)
  qed
qed

lemma heads_None_iff: "heads dc n = None \<longleftrightarrow> map_of dc n = None"
  by (simp add: heads_def)

lemma rankInv_foldl:
  "shapeInv cfg N s \<Longrightarrow> rankInv cfg rk (dominatorChains s) \<Longrightarrow> distinct ns \<Longrightarrow> set ns \<inter> N = {} \<Longrightarrow>
   set ns \<subseteq> set (getNodes cfg) \<Longrightarrow> closedGraph cfg \<Longrightarrow> topological cfg rk \<Longrightarrow>
   rankInv cfg rk (dominatorChains (foldl (directStep cfg) s ns))"
proof (induction ns arbitrary: N s)
  case Nil then show ?case by simp
next
  case (Cons x xs)
  have xN: "x \<notin> N" using Cons.prems by auto
  have 1: "shapeInv cfg (insert x N) (directStep cfg s x)"
    using Cons.prems(1) xN by (rule shapeInv_directStep)
  have "heads (dominatorChains s) x = None"
    using Cons.prems(1) xN unfolding shapeInv_def by (metis)
  then have 2: "rankInv cfg rk (dominatorChains (directStep cfg s x))"
    using Cons.prems by (intro rankInv_directStep) (auto simp: heads_None_iff)
  from Cons.IH[OF 1 2] Cons.prems show ?case by auto
qed

lemma fullInv_directPass:
  assumes "distinct (getNodes cfg)" "closedGraph cfg" "topological cfg rk"
  shows "fullInv cfg rk (directPass cfg)"
proof -
  have "rankInv cfg rk (dominatorChains initialState)"
    by (simp add: rankInv_def initialState_def)
  from rankInv_foldl[OF shapeInv_initial this, where ns = "getNodes cfg"] assms
  show ?thesis using shapeInv_directPass[of cfg] by (simp add: fullInv_def directPass_def)
qed

lemma mergeChains_suffix: "mergeChains W0 rest = Some W \<Longrightarrow> \<exists>i. W = drop i W0"
proof (induction W0 rest rule: mergeChains.induct)
  case (1 W0) then show ?case by (auto intro: exI[of _ 0])
next
  case (2 W0 c ch rest)
  let ?f = "dropWhile (\<lambda>node. \<not> (Some c = node \<or> node \<in> set ch)) W0"
  from 2 have "?f \<noteq> []" and "mergeChains ?f rest = Some W"
    by (auto simp: Let_def split: if_splits)
  with 2(1)[OF refl] obtain i where "W = drop i ?f" by blast
  then show ?case by (auto simp: dropWhile_eq_drop)
qed

lemma mergeChains_sentinel:
  "None \<in> set W0 \<Longrightarrow> \<forall>p \<in> set rest. None \<in> set (snd p) \<Longrightarrow>
   \<exists>W. mergeChains W0 rest = Some W \<and> None \<in> set W"
proof (induction W0 rest rule: mergeChains.induct)
  case (1 W0) then show ?case by simp
next
  case (2 W0 c ch rest)
  let ?P = "\<lambda>node. \<not> (Some c = node \<or> node \<in> set ch)"
  have "\<not> ?P None" using 2(3) by simp
  with 2(2) have in': "None \<in> set (dropWhile ?P W0)"
    by (induction W0) auto
  then have ne: "dropWhile ?P W0 \<noteq> []" by (metis empty_iff list.set(1))
  from 2(1)[OF refl ne in'] 2(3) ne show ?case by (simp add: Let_def)
qed

lemma pdc_Some:
  assumes "predecessorDominatorChains ord dc cs = Some l"
  shows "(\<forall>c \<in> set cs. map_of dc c \<noteq> None) \<and>
         l = map (\<lambda>c. (c, case map_of dc c of None \<Rightarrow> [] | Some ch \<Rightarrow> ch)) (candidateOrder ord cs)"
  using assms by (auto simp: predecessorDominatorChains_def split: if_splits)

lemma pdc_entry:
  assumes "predecessorDominatorChains ord dc cs = Some l" "p \<in> set l"
    and "set (candidateOrder ord cs) \<subseteq> set cs"
  shows "fst p \<in> set cs \<and> map_of dc (fst p) = Some (snd p)"
  using pdc_Some[OF assms(1)] assms(2,3) by (auto split: option.splits)

subsection \<open>Every round of the outer loop makes progress\<close>

lemma potential_less:
  assumes "\<forall>n. n \<noteq> k \<longrightarrow> map_of dc' n = map_of dc n" "k \<in> set (getNodes cfg)"
    "weight rk dc' k < weight rk dc k"
  shows "potential cfg rk dc' < potential cfg rk dc"
  unfolding potential_def
proof (rule sum_strict_mono_ex1)
  show "finite (set (getNodes cfg))" by simp
  show "\<forall>x\<in>set (getNodes cfg). weight rk dc' x \<le> weight rk dc x"
  proof
    fix x show "weight rk dc' x \<le> weight rk dc x"
      using assms(1,3) by (cases "x = k") (simp_all add: weight_def)
  qed
  show "\<exists>a\<in>set (getNodes cfg). weight rk dc' a < weight rk dc a"
    using assms(2,3) by blast
qed

lemma chainInv_extendChain:
  assumes "chainInv cfg rk dc"
  shows "chainInv cfg rk (extendChain dc k)"
proof -
  have h: "heads (extendChain dc k) = heads dc" and n: "nonemptyChains (extendChain dc k)"
    using extendChain_heads[of dc k] assms by (simp_all add: chainInv_def)
  have "map_of (extendChain dc k) m \<noteq> None \<longleftrightarrow> map_of dc m \<noteq> None" for m
    using h by (metis heads_None_iff)
  with assms n rankInv_extendChain[of cfg rk dc k] show ?thesis
    by (simp add: chainInv_def)
qed

lemma extendChain_progress:
  assumes inv: "chainInv cfg rk dc"
  shows "extendChain dc k = dc \<or> potential cfg rk (extendChain dc k) < potential cfg rk dc"
proof (cases "extendChain dc k = dc")
  case True then show ?thesis by simp
next
  case False
  then obtain c q cq where c: "map_of dc k = Some c" "c \<noteq> []" "last c = Some q" "map_of dc q = Some cq"
    and e: "extendChain dc k = AList.update k (c @ cq) dc"
    by (auto simp: extendChain_def split: option.splits if_splits)
  have cq: "cq \<noteq> []" using inv c(4) by (auto simp: chainInv_def nonemptyChains_def)
  have kN: "k \<in> set (getNodes cfg)" using inv c(1) by (auto simp: chainInv_def)
  have "rankInv cfg rk (extendChain dc k)" using chainInv_extendChain[OF inv, of k] by (simp add: chainInv_def)
  then have "decreasing rk (Some k # c @ cq)"
    unfolding e rankInv_def by (simp add: update_conv')
  from decreasing_length[OF this] have "length (c @ cq) \<le> Suc (rk k)" by simp
  with cq have w: "weight rk (extendChain dc k) k < weight rk dc k"
    unfolding e by (cases cq) (simp_all add: weight_def update_conv' c(1))
  have "potential cfg rk (extendChain dc k) < potential cfg rk dc"
    by (rule potential_less[OF _ kN w]) (simp add: e update_conv')
  then show ?thesis by simp
qed

lemma foldl_extendChain_progress:
  "chainInv cfg rk dc \<Longrightarrow>
   chainInv cfg rk (foldl extendChain dc ks) \<and>
   potential cfg rk (foldl extendChain dc ks) \<le> potential cfg rk dc \<and>
   (potential cfg rk (foldl extendChain dc ks) = potential cfg rk dc \<longrightarrow>
      foldl extendChain dc ks = dc \<and> (\<forall>k \<in> set ks. extendChain dc k = dc))"
proof (induction ks arbitrary: dc)
  case Nil then show ?case by simp
next
  case (Cons k ks)
  have 1: "chainInv cfg rk (extendChain dc k)" using Cons.prems by (rule chainInv_extendChain)
  note IH = Cons.IH[OF 1]
  from extendChain_progress[OF Cons.prems, of k] show ?case
  proof
    assume "extendChain dc k = dc"
    with IH show ?thesis by simp
  next
    assume "potential cfg rk (extendChain dc k) < potential cfg rk dc"
    with IH show ?thesis by simp
  qed
qed

lemma fullInv_chainInv: "fullInv cfg rk s \<Longrightarrow> chainInv cfg rk (dominatorChains s)"
  unfolding fullInv_def chainInv_def shapeInv_def by (metis heads_None_iff)

lemma fullInv_extendChains:
  assumes "fullInv cfg rk s"
  shows "fullInv cfg rk (s\<lparr>dominatorChains := extendChains ord (dominatorChains s)\<rparr>)"
  using assms shapeInv_extendChains[of cfg "set (getNodes cfg)" s ord]
    foldl_extendChain_progress[OF fullInv_chainInv[OF assms], of "chainOrder ord (map fst (dominatorChains s))"]
  by (simp add: fullInv_def chainInv_def extendChains_def)

lemma fullInv_merged:
  assumes inv: "fullInv cfg rk s" and sub: "set (candidateOrder ord cs) \<subseteq> set cs"
    and topo: "topological cfg rk" and cl: "closedGraph cfg"
    and p: "map_of (predecessors s) n = Some cs"
    and l: "predecessorDominatorChains ord (dominatorChains s) cs = Some ((c, ch) # rest)"
    and m: "mergeChains (Some c # ch) rest = Some W" and ne: "W \<noteq> []"
  shows "fullInv cfg rk (merged s n W)"
    and "potential cfg rk (dominatorChains (merged s n W)) < potential cfg rk (dominatorChains s)"
    and "\<forall>d. hd W = Some d \<longrightarrow> d \<in> set (treeNodes (tree s)) \<and> n \<in> set (treeNodes (tree s))"
proof -
  let ?N = "set (getNodes cfg)"
  have sh: "shapeInv cfg ?N s" and rk: "rankInv cfg rk (dominatorChains s)"
    using inv by (simp_all add: fullInv_def)
  have nN: "n \<in> ?N" and cs: "cs = getDominatorCandidates cfg n" and hn: "map_of (dominatorChains s) n = None"
    using sh p unfolding shapeInv_def heads_None_iff[symmetric] by blast+
  have c: "c \<in> set cs" "map_of (dominatorChains s) c = Some ch"
    using pdc_entry[OF l _ sub, of "(c, ch)"] by simp_all
  have cN: "c \<in> ?N" using closed_candidates[OF cl nN] c(1) cs by simp
  have lt: "rk c < rk n" using topo nN c(1) cs unfolding topological_def by blast
  have dch: "decreasing rk (Some c # ch)" and ech: "\<forall>a. Some a \<in> set ch \<longrightarrow> a \<in> ?N"
    using rk c(2) unfolding rankInv_def by blast+
  obtain i where W: "W = drop i (Some c # ch)" using mergeChains_suffix[OF m] by blast
  have dW: "decreasing rk W" using dch unfolding W decreasing_def by (rule sorted_wrt_drop)
  have sW: "set W \<subseteq> set (Some c # ch)" unfolding W by (rule set_drop_subset)
  have below: "rko rk y < rko rk (Some n)" if "y \<in> set W" for y
  proof -
    from that sW have "y = Some c \<or> y \<in> set ch" by auto
    then show ?thesis
    proof
      assume "y = Some c" with lt show ?thesis by simp
    next
      assume "y \<in> set ch"
      from decreasing_below_head[OF dch this] lt show ?thesis by simp
    qed
  qed
  have dnW: "decreasing rk (Some n # W)" using dW below by (simp add: decreasing_def)
  have eW: "\<forall>a. Some a \<in> set W \<longrightarrow> a \<in> ?N" using sW cN ech by auto
  have mo: "map_of (emplace n W (dominatorChains s)) = (map_of (dominatorChains s))(n \<mapsto> W)"
    using hn by (simp add: map_of_emplace)
  have "rankInv cfg rk (emplace n W (dominatorChains s))"
    using rk dnW eW unfolding rankInv_def mo by simp
  moreover have "shapeInv cfg ?N (merged s n W)" using sh p ne by (rule shapeInv_merged)
  ultimately show "fullInv cfg rk (merged s n W)" by (simp add: fullInv_def merged_def)
  have "weight rk (emplace n W (dominatorChains s)) n < weight rk (dominatorChains s) n"
    by (simp add: weight_def mo hn)
  from potential_less[OF _ nN this]
  show "potential cfg rk (dominatorChains (merged s n W)) < potential cfg rk (dominatorChains s)"
    by (simp add: merged_def mo)
  have "?N \<subseteq> set (treeNodes (tree s))" using sh unfolding shapeInv_def by blast
  moreover have "hd W \<in> set W" using ne by simp
  ultimately show "\<forall>d. hd W = Some d \<longrightarrow> d \<in> set (treeNodes (tree s)) \<and> n \<in> set (treeNodes (tree s))"
    using eW nN by auto
qed

lemma tryMerge_progress:
  assumes inv: "fullInv cfg rk s" and sub: "set (candidateOrder ord cs) \<subseteq> set cs"
    and topo: "topological cfg rk" and cl: "closedGraph cfg"
    and p: "map_of (predecessors s) n = Some cs"
  shows "tryMerge ord s n cs = Inr s \<or>
         (\<exists>s'. tryMerge ord s n cs = Inr s' \<and> fullInv cfg rk s' \<and>
               potential cfg rk (dominatorChains s') < potential cfg rk (dominatorChains s))"
proof (cases rule: tryMerge_cases[of ord s n cs])
  case unchanged then show ?thesis by simp
next
  case (failed c ch rest W)
  with fullInv_merged(3)[OF inv sub topo cl p failed(1,2,3)] show ?thesis by simp
next
  case (resolved c ch rest W)
  with fullInv_merged(1,2)[OF inv sub topo cl p resolved(1,2,3)] show ?thesis by blast
qed

lemma mergePass_progress:
  assumes tr: "traversal ord" and topo: "topological cfg rk" and cl: "closedGraph cfg"
  shows "fullInv cfg rk s \<Longrightarrow>
    \<exists>s'. mergePass ord ks s = Inr s' \<and> fullInv cfg rk s' \<and>
         potential cfg rk (dominatorChains s') \<le> potential cfg rk (dominatorChains s) \<and>
         (potential cfg rk (dominatorChains s') = potential cfg rk (dominatorChains s) \<longrightarrow>
            (\<forall>k \<in> set ks. \<forall>cs. map_of (predecessors s) k = Some cs \<longrightarrow> tryMerge ord s k cs = Inr s))"
proof (induction ks arbitrary: s)
  case Nil then show ?case by simp
next
  case (Cons k ks)
  show ?case
  proof (cases "map_of (predecessors s) k")
    case None
    with Cons.IH[OF Cons.prems] show ?thesis by simp
  next
    case (Some cs)
    have sub: "set (candidateOrder ord cs) \<subseteq> set cs" using tr by (simp add: traversal_def)
    from tryMerge_progress[OF Cons.prems sub topo cl Some] show ?thesis
    proof
      assume u: "tryMerge ord s k cs = Inr s"
      with Cons.IH[OF Cons.prems] Some show ?thesis by simp
    next
      assume "\<exists>s'. tryMerge ord s k cs = Inr s' \<and> fullInv cfg rk s' \<and>
               potential cfg rk (dominatorChains s') < potential cfg rk (dominatorChains s)"
      then obtain s1 where t: "tryMerge ord s k cs = Inr s1" and i: "fullInv cfg rk s1"
        and lt: "potential cfg rk (dominatorChains s1) < potential cfg rk (dominatorChains s)" by blast
      from Cons.IH[OF i] obtain s' where "mergePass ord ks s1 = Inr s'" "fullInv cfg rk s'"
        "potential cfg rk (dominatorChains s') \<le> potential cfg rk (dominatorChains s1)" by blast
      with t lt Some show ?thesis by auto
    qed
  qed
qed

lemma tryMerge_changes:
  assumes l: "predecessorDominatorChains ord (dominatorChains s) cs = Some ((c, ch) # rest)"
    and m: "mergeChains (Some c # ch) rest = Some W" and ne: "W \<noteq> []"
    and p: "map_of (predecessors s) n = Some cs'"
  shows "tryMerge ord s n cs \<noteq> Inr s"
proof
  assume eq: "tryMerge ord s n cs = Inr s"
  have "predecessors s = AList.delete n (predecessors s)"
  proof (cases "recordDominator (tree s) (hd W) n")
    case (Inl e)
    with eq l m ne show ?thesis by (simp add: tryMerge_def)
  next
    case (Inr t)
    with eq l m ne have "s = s\<lparr>tree := t,
        dominatorChains := emplace n W (dominatorChains s),
        predecessors := AList.delete n (predecessors s)\<rparr>"
      by (simp add: tryMerge_def)
    then have "predecessors s = predecessors (s\<lparr>tree := t,
        dominatorChains := emplace n W (dominatorChains s),
        predecessors := AList.delete n (predecessors s)\<rparr>)" by simp
    then show ?thesis by simp
  qed
  then have "map_of (predecessors s) n = map_of (AList.delete n (predecessors s)) n" by simp
  with p show False by (simp add: delete_conv)
qed

lemma no_stall:
  assumes inv: "fullInv cfg rk s" and tr: "traversal ord"
    and topo: "topological cfg rk" and cl: "closedGraph cfg"
    and pend: "predecessors s \<noteq> []"
    and A: "\<forall>k \<in> set (map fst (dominatorChains s)). extendChain (dominatorChains s) k = dominatorChains s"
    and B: "\<forall>k \<in> set (map fst (predecessors s)). \<forall>cs. map_of (predecessors s) k = Some cs \<longrightarrow>
              tryMerge ord s k cs = Inr s"
  shows False
proof -
  let ?N = "set (getNodes cfg)" and ?dc = "dominatorChains s" and ?P = "\<lambda>n. map_of (predecessors s) n \<noteq> None"
  have sh: "shapeInv cfg ?N s" and rk: "rankInv cfg rk ?dc"
    using inv by (simp_all add: fullInv_def)
  have ne: "nonemptyChains ?dc" using sh by (simp add: shapeInv_def)
  obtain k0 v0 ps where "predecessors s = (k0, v0) # ps" using pend by (cases "predecessors s") auto
  then have "?P k0" by simp
  from ex_has_least_nat[of ?P k0 rk, OF this]
  obtain n where Pn: "?P n" and least: "\<And>y. ?P y \<Longrightarrow> rk n \<le> rk y" by blast
  from Pn obtain cs where p: "map_of (predecessors s) n = Some cs" by blast
  have nN: "n \<in> ?N" and cs: "cs = getDominatorCandidates cfg n" and len: "2 \<le> length cs"
    using sh p unfolding shapeInv_def by blast+
  have complete: "\<exists>cd. map_of ?dc d = Some cd \<and> None \<in> set cd" if d: "d \<in> set cs" for d
  proof -
    have dN: "d \<in> ?N" using closed_candidates[OF cl nN] d cs by simp
    have lt: "rk d < rk n" using topo nN d cs unfolding topological_def by blast
    have "\<not> ?P d"
    proof
      assume "?P d" from least[OF this] lt show False by simp
    qed
    then have "heads ?dc d \<noteq> None" using sh dN unfolding shapeInv_def by blast
    then obtain cd where cd: "map_of ?dc d = Some cd" by (auto simp: heads_def)
    have cdne: "cd \<noteq> []" using ne cd by (auto simp: nonemptyChains_def)
    have dec: "decreasing rk (Some d # cd)" and ent: "\<forall>a. Some a \<in> set cd \<longrightarrow> a \<in> ?N"
      using rk cd unfolding rankInv_def by blast+
    have "last cd = None"
    proof (rule ccontr)
      assume "last cd \<noteq> None"
      then obtain q where q: "last cd = Some q" by auto
      have qin: "Some q \<in> set cd" using cdne q by (metis last_in_set)
      have qN: "q \<in> ?N" using ent qin by blast
      have "rko rk (Some q) < rko rk (Some d)" using decreasing_below_head[OF dec qin] .
      then have "rk q < rk n" using lt by simp
      then have "\<not> ?P q" using least[of q] by (metis not_less)
      then have "heads ?dc q \<noteq> None" using sh qN unfolding shapeInv_def by blast
      then obtain cq where cq: "map_of ?dc q = Some cq" by (auto simp: heads_def)
      have cqne: "cq \<noteq> []" using ne cq by (auto simp: nonemptyChains_def)
      have "d \<in> set (map fst ?dc)" using cd by (metis map_of_eq_None_iff option.distinct(1) set_map)
      with A have "extendChain ?dc d = ?dc" by blast
      moreover have "extendChain ?dc d = AList.update d (cd @ cq) ?dc"
        using cd cdne q cq by (simp add: extendChain_def)
      ultimately have "map_of (AList.update d (cd @ cq) ?dc) d = map_of ?dc d" by simp
      with cd cqne show False by (simp add: update_conv')
    qed
    with cdne have "None \<in> set cd" by (metis last_in_set)
    with cd show ?thesis by blast
  qed
  have all: "\<forall>c \<in> set cs. map_of ?dc c \<noteq> None" using complete by fastforce
  have ordset: "set (candidateOrder ord cs) = set cs" using tr by (simp add: traversal_def)
  define l where "l = map (\<lambda>c. (c, case map_of ?dc c of None \<Rightarrow> [] | Some ch \<Rightarrow> ch)) (candidateOrder ord cs)"
  have pdc: "predecessorDominatorChains ord ?dc cs = Some l"
    using all by (simp add: predecessorDominatorChains_def l_def)
  have sent: "\<forall>p \<in> set l. None \<in> set (snd p)"
    using complete ordset by (fastforce simp: l_def)
  have "cs \<noteq> []" using len by auto
  then have "candidateOrder ord cs \<noteq> []" using ordset by (metis set_empty)
  then obtain c ch rest where l: "l = (c, ch) # rest" by (cases l) (auto simp: l_def)
  have "None \<in> set (Some c # ch)" using sent l by simp
  from mergeChains_sentinel[OF this, of rest] sent l
  obtain W where W: "mergeChains (Some c # ch) rest = Some W" "None \<in> set W" by auto
  then have "W \<noteq> []" by auto
  from tryMerge_changes[OF pdc[unfolded l] W(1) this p]
  have "tryMerge ord s n cs \<noteq> Inr s" .
  moreover have "n \<in> set (map fst (predecessors s))"
    using p by (metis map_of_eq_None_iff option.distinct(1) set_map)
  ultimately show False using B p by blast
qed

lemma foldl_unchanged: "\<forall>k \<in> set ks. f a k = a \<Longrightarrow> foldl f a ks = a"
  by (induction ks) simp_all

lemma iteration_progress:
  assumes inv: "fullInv cfg rk s" and tr: "traversal ord"
    and topo: "topological cfg rk" and cl: "closedGraph cfg"
    and pend: "predecessors s \<noteq> []"
  shows "\<exists>s'. iteration ord s = Inr s' \<and> fullInv cfg rk s' \<and>
              potential cfg rk (dominatorChains s') < potential cfg rk (dominatorChains s)"
proof -
  let ?dc = "dominatorChains s"
  let ?ks = "chainOrder ord (map fst ?dc)"
  let ?s1 = "s\<lparr>dominatorChains := extendChains ord ?dc\<rparr>"
  let ?ps = "pendingOrder ord (map fst (predecessors ?s1))"
  have i1: "fullInv cfg rk ?s1" using inv by (rule fullInv_extendChains)
  have e: "potential cfg rk (extendChains ord ?dc) \<le> potential cfg rk ?dc"
    and e0: "potential cfg rk (extendChains ord ?dc) = potential cfg rk ?dc \<Longrightarrow>
             \<forall>k \<in> set ?ks. extendChain ?dc k = ?dc"
    using foldl_extendChain_progress[OF fullInv_chainInv[OF inv], of ?ks]
    by (simp_all add: extendChains_def)
  from mergePass_progress[OF tr topo cl i1, of ?ps]
  obtain s' where m: "mergePass ord ?ps ?s1 = Inr s'" and i': "fullInv cfg rk s'"
    and le: "potential cfg rk (dominatorChains s') \<le> potential cfg rk (dominatorChains ?s1)"
    and m0: "potential cfg rk (dominatorChains s') = potential cfg rk (dominatorChains ?s1) \<Longrightarrow>
             \<forall>k \<in> set ?ps. \<forall>cs. map_of (predecessors ?s1) k = Some cs \<longrightarrow> tryMerge ord ?s1 k cs = Inr ?s1"
    by blast
  have it: "iteration ord s = Inr s'" using m by (simp add: iteration_def Let_def)
  have "potential cfg rk (dominatorChains s') \<noteq> potential cfg rk ?dc"
  proof
    assume eq: "potential cfg rk (dominatorChains s') = potential cfg rk ?dc"
    with le e have eq1: "potential cfg rk (extendChains ord ?dc) = potential cfg rk ?dc"
      and eq2: "potential cfg rk (dominatorChains s') = potential cfg rk (dominatorChains ?s1)"
      by simp_all
    have A0: "\<forall>k \<in> set ?ks. extendChain ?dc k = ?dc" using e0[OF eq1] .
    then have "extendChains ord ?dc = ?dc" unfolding extendChains_def by (rule foldl_unchanged)
    then have s1: "?s1 = s" by simp
    have A: "\<forall>k \<in> set (map fst ?dc). extendChain ?dc k = ?dc"
      using A0 tr by (simp add: traversal_def)
    have "set ?ps = set (map fst (predecessors s))" using tr by (simp add: traversal_def)
    with m0[OF eq2] have B: "\<forall>k \<in> set (map fst (predecessors s)). \<forall>cs.
        map_of (predecessors s) k = Some cs \<longrightarrow> tryMerge ord s k cs = Inr s"
      unfolding s1 by simp
    from no_stall[OF inv tr topo cl pend A B] show False .
  qed
  with le e it i' show ?thesis by auto
qed

lemma mergeLoop_terminates:
  assumes tr: "traversal ord" and topo: "topological cfg rk" and cl: "closedGraph cfg"
  shows "fullInv cfg rk s \<Longrightarrow>
         \<exists>s'. mergeLoop ord s = Some (Inr s') \<and> fullInv cfg rk s' \<and> predecessors s' = []"
proof (induction "potential cfg rk (dominatorChains s)" arbitrary: s rule: less_induct)
  case less
  show ?case
  proof (cases "predecessors s = []")
    case True
    with less.prems show ?thesis by (subst mergeLoop.simps) simp
  next
    case False
    from iteration_progress[OF less.prems tr topo cl False]
    obtain s1 where it: "iteration ord s = Inr s1" and i1: "fullInv cfg rk s1"
      and lt: "potential cfg rk (dominatorChains s1) < potential cfg rk (dominatorChains s)" by blast
    from less.hyps[OF lt i1] obtain s' where
      "mergeLoop ord s1 = Some (Inr s')" "fullInv cfg rk s'" "predecessors s' = []" by blast
    moreover have "mergeLoop ord s = mergeLoop ord s1"
      using False it by (subst mergeLoop.simps) simp
    ultimately show ?thesis by simp
  qed
qed

section \<open>The direct pass and the returned tree\<close>

lemma createDominatorTree_Inr:
  "createDominatorTree ord cfg = Some (Inr t) \<longleftrightarrow>
   (\<exists>s'. mergeLoop ord (directPass cfg) = Some (Inr s') \<and> t = tree s')"
  unfolding createDominatorTree_def
  by (cases "mergeLoop ord (directPass cfg)") (auto simp: map_sum_def split: sum.splits)

lemma shapeInv_final_heads:
  assumes "shapeInv cfg N s" "predecessors s = []" "n \<in> N"
  shows "\<exists>h. heads (dominatorChains s) n = Some h"
  using assms unfolding shapeInv_def by fastforce

lemma final_direct_parent:
  assumes "distinct (getNodes cfg)" and run: "mergeLoop ord (directPass cfg) = Some (Inr s')"
    and "n \<in> set (getNodes cfg)"
  shows "case getDominatorCandidates cfg n of
           [] \<Rightarrow> parentEdges (tree s') n = []
         | [d] \<Rightarrow> parentEdges (tree s') n = [(d, n)]
         | d # d' # ds \<Rightarrow> True"
proof -
  from shapeInv_result[OF assms(1) run] have sh: "shapeInv cfg (set (getNodes cfg)) s'"
    and e: "predecessors s' = []" by simp_all
  from shapeInv_final_heads[OF sh e assms(3)] obtain h where h: "heads (dominatorChains s') n = Some h" by blast
  have pe: "parentEdges (tree s') n = (case h of Some d \<Rightarrow> [(d, n)] | None \<Rightarrow> [])"
    using sh h unfolding shapeInv_def by (simp split: option.splits)
  have hh: "length (getDominatorCandidates cfg n) \<le> 1 \<Longrightarrow>
            h = (case getDominatorCandidates cfg n of [] \<Rightarrow> None | d # ds \<Rightarrow> Some d)"
    using sh h assms(3) unfolding shapeInv_def by blast
  show ?thesis
  proof (cases "getDominatorCandidates cfg n")
    case Nil
    with hh pe show ?thesis by simp
  next
    case (Cons d ds)
    with hh pe show ?thesis by (cases ds) simp_all
  qed
qed

lemma final_tree_nodes:
  assumes "distinct (getNodes cfg)" and "closedGraph cfg"
    and run: "mergeLoop ord (directPass cfg) = Some (Inr s')"
  shows "distinct (treeNodes (tree s')) \<and> set (treeNodes (tree s')) = set (getNodes cfg)"
proof -
  from shapeInv_result[OF assms(1) run] have sh: "shapeInv cfg (set (getNodes cfg)) s'" by simp
  have "{d. \<exists>n \<in> set (getNodes cfg). getDominatorCandidates cfg n = [d]} \<subseteq> set (getNodes cfg)"
    using closed_candidates[OF assms(2)] by fastforce
  with sh show ?thesis unfolding shapeInv_def by blast
qed

text \<open>
  Claim C3. In the tree the builder returns, a node of the graph whose candidate set has
  exactly one element has exactly one incoming tree edge, from that candidate; a node whose
  candidate set is empty has no incoming tree edge.
\<close>

theorem direct_resolution_parent:
  assumes "distinct (getNodes cfg)" and "createDominatorTree ord cfg = Some (Inr t)"
    and "n \<in> set (getNodes cfg)"
  shows "case getDominatorCandidates cfg n of
           [] \<Rightarrow> parentEdges t n = []
         | [d] \<Rightarrow> parentEdges t n = [(d, n)]
         | d # d' # ds \<Rightarrow> True"
proof -
  from assms(2) obtain s' where run: "mergeLoop ord (directPass cfg) = Some (Inr s')" and t: "t = tree s'"
    unfolding createDominatorTree_Inr by blast
  from final_direct_parent[OF assms(1) run assms(3)] show ?thesis unfolding t .
qed

theorem direct_resolution_parent_witness:
  "distinct (getNodes diamond) \<and>
   createDominatorTree insertionOrder diamond =
     Some (Inr \<lparr>treeNodes = [0, 1, 2, 3], treeEdges = [(0, 1), (0, 2), (0, 3)]\<rparr>) \<and>
   getDominatorCandidates diamond 1 = [0] \<and>
   parentEdges \<lparr>treeNodes = [0, 1, 2, 3], treeEdges = [(0, 1), (0, 2), (0, 3)]\<rparr> 1 = [(0, 1)] \<and>
   getDominatorCandidates diamond 0 = [] \<and>
   parentEdges \<lparr>treeNodes = [0, 1, 2, 3], treeEdges = [(0, 1), (0, 2), (0, 3)]\<rparr> 0 = []"
proof -
  let ?t = "\<lparr>treeNodes = [0, 1, 2, 3], treeEdges = [(0, 1), (0, 2), (0, 3)]\<rparr>"
  have a: "distinct (getNodes diamond)" by (simp add: diamond_def)
  have b: "createDominatorTree insertionOrder diamond = Some (Inr ?t)" by code_simp
  have c1: "getDominatorCandidates diamond 1 = [0]" by code_simp
  have c0: "getDominatorCandidates diamond 0 = []" by code_simp
  have n1: "1 \<in> set (getNodes diamond)" and n0: "0 \<in> set (getNodes diamond)" by (simp_all add: diamond_def)
  from direct_resolution_parent[OF a b n1] direct_resolution_parent[OF a b n0] a b c1 c0
  show ?thesis by simp
qed

text \<open>
  Claim C8. The returned tree has exactly one tree node for every node of the graph and no
  others. The graph is one whose node container holds every node once and whose edges join
  nodes of the graph.
\<close>

theorem tree_nodes_correspond:
  assumes "distinct (getNodes cfg)" and "closedGraph cfg"
    and "createDominatorTree ord cfg = Some (Inr t)"
  shows "distinct (treeNodes t) \<and> set (treeNodes t) = set (getNodes cfg)"
proof -
  from assms(3) obtain s' where run: "mergeLoop ord (directPass cfg) = Some (Inr s')" and t: "t = tree s'"
    unfolding createDominatorTree_Inr by blast
  from final_tree_nodes[OF assms(1,2) run] show ?thesis unfolding t .
qed

theorem tree_nodes_correspond_witness:
  "distinct (getNodes diamond) \<and> closedGraph diamond \<and>
   createDominatorTree insertionOrder diamond =
     Some (Inr \<lparr>treeNodes = [0, 1, 2, 3], treeEdges = [(0, 1), (0, 2), (0, 3)]\<rparr>) \<and>
   set (treeNodes \<lparr>treeNodes = [0, 1, 2, 3], treeEdges = [(0, 1), (0, 2), (0, 3)]\<rparr>) = set (getNodes diamond)"
proof -
  have a: "distinct (getNodes diamond)" by (simp add: diamond_def)
  have b: "closedGraph diamond" by (simp add: closedGraph_def diamond_def)
  have c: "createDominatorTree insertionOrder diamond =
     Some (Inr \<lparr>treeNodes = [0, 1, 2, 3], treeEdges = [(0, 1), (0, 2), (0, 3)]\<rparr>)" by code_simp
  from tree_nodes_correspond[OF a b c] a b c show ?thesis by simp
qed

text \<open>
  Claim C2. The candidates of a node are exactly the predecessors that reach it over an
  edge that is neither a back edge seen from the predecessor nor a work-group-loop edge,
  without the node itself; the result is a set (no element twice). The function has the
  graph as a read-only argument and returns nothing but the set.
\<close>

theorem getDominatorCandidates_exact:
  "set (getDominatorCandidates cfg n) =
     {p. \<exists>e. (p, e) \<in> set (incomingEdges cfg n) \<and> \<not> isBackEdge e p \<and> \<not> isWorkGroupLoop e} - {n}
   \<and> distinct (getDominatorCandidates cfg n) \<and> n \<notin> set (getDominatorCandidates cfg n)"
  by (simp add: candidates_set candidates_distinct)

theorem getDominatorCandidates_exact_witness:
  "set (getDominatorCandidates parallelGraph 1) =
     {p. \<exists>e. (p, e) \<in> set (incomingEdges parallelGraph 1) \<and> \<not> isBackEdge e p \<and> \<not> isWorkGroupLoop e} - {1}
   \<and> getDominatorCandidates parallelGraph 1 = [0]"
proof -
  have "getDominatorCandidates parallelGraph 1 = [0]" by code_simp
  with getDominatorCandidates_exact[of parallelGraph 1] show ?thesis by simp
qed

lemma distinct_singleton: "distinct xs \<Longrightarrow> set xs = {d} \<Longrightarrow> xs = [d]"
  by (cases xs; cases "tl xs") auto

lemma reached_shapeInv:
  assumes "distinct (getNodes cfg)"
  shows "reached ord cfg s \<Longrightarrow> shapeInv cfg (set (getNodes cfg)) s"
proof (induction rule: reached.induct)
  case direct
  show ?case using assms by (rule shapeInv_directPass)
next
  case (extended s)
  from shapeInv_extendChains[OF extended.IH] show ?case .
next
  case (attempted s k cs s')
  from shapeInv_tryMerge[OF attempted.IH attempted.hyps(2,3)] show ?case .
qed

text \<open>
  Claim C10. When all qualifying incoming edges of a node come from one predecessor, however
  many parallel edges there are, the candidate set is that one predecessor. At the end of the
  direct pass and in every later state of the builder the tree has the edge from it as the
  only edge into the node, the node has a chain, and the node is not in the pending map.
\<close>

theorem parallel_edges_single_candidate:
  assumes "distinct (getNodes cfg)" and "n \<in> set (getNodes cfg)"
    and "{p. \<exists>e. (p, e) \<in> set (incomingEdges cfg n) \<and> \<not> isBackEdge e p \<and> \<not> isWorkGroupLoop e \<and> p \<noteq> n} = {d}"
    and "reached ord cfg s"
  shows "getDominatorCandidates cfg n = [d] \<and>
         parentEdges (tree s) n = [(d, n)] \<and>
         map_of (dominatorChains s) n \<noteq> None \<and>
         map_of (predecessors s) n = None"
proof -
  have "set (getDominatorCandidates cfg n) = {d}"
    unfolding candidates_set using assms(3) by blast
  then have c: "getDominatorCandidates cfg n = [d]"
    using candidates_distinct[of cfg n] by (intro distinct_singleton)
  have sh: "shapeInv cfg (set (getNodes cfg)) s"
    using assms(1,4) by (rule reached_shapeInv)
  have p: "map_of (predecessors s) n = None"
  proof (rule ccontr)
    assume "map_of (predecessors s) n \<noteq> None"
    then obtain cs where "map_of (predecessors s) n = Some cs" by blast
    with sh have "2 \<le> length (getDominatorCandidates cfg n)" unfolding shapeInv_def by blast
    with c show False by simp
  qed
  with sh assms(2) obtain h where h: "heads (dominatorChains s) n = Some h"
    unfolding shapeInv_def by fastforce
  have "h = Some d" using sh h assms(2) c unfolding shapeInv_def by fastforce
  with sh h have "parentEdges (tree s) n = [(d, n)]"
    unfolding shapeInv_def by simp
  with c p h show ?thesis by (auto simp: heads_def)
qed

theorem parallel_edges_single_candidate_witness:
  "distinct (getNodes parallelGraph) \<and> 1 \<in> set (getNodes parallelGraph) \<and>
   {p. \<exists>e. (p, e) \<in> set (incomingEdges parallelGraph 1) \<and> \<not> isBackEdge e p \<and> \<not> isWorkGroupLoop e \<and> p \<noteq> 1} = {0} \<and>
   reached insertionOrder parallelGraph (directPass parallelGraph) \<and>
   getDominatorCandidates parallelGraph 1 = [0] \<and>
   parentEdges (tree (directPass parallelGraph)) 1 = [(0, 1)] \<and>
   map_of (predecessors (directPass parallelGraph)) 1 = None"
proof -
  have a: "distinct (getNodes parallelGraph)" and b: "1 \<in> set (getNodes parallelGraph)"
    by (simp_all add: parallelGraph_def)
  have c: "{p. \<exists>e. (p, e) \<in> set (incomingEdges parallelGraph 1) \<and> \<not> isBackEdge e p \<and> \<not> isWorkGroupLoop e \<and> p \<noteq> 1} = {0}"
  proof -
    have "{p. \<exists>e. (p, e) \<in> set (incomingEdges parallelGraph 1) \<and> \<not> isBackEdge e p \<and> \<not> isWorkGroupLoop e \<and> p \<noteq> 1}
          = set (getDominatorCandidates parallelGraph 1)"
      unfolding candidates_set by blast
    moreover have "getDominatorCandidates parallelGraph 1 = [0]" by code_simp
    ultimately show ?thesis by simp
  qed
  have r: "reached insertionOrder parallelGraph (directPass parallelGraph)" by (rule reached.direct)
  from parallel_edges_single_candidate[OF a b c r] a b c r show ?thesis by simp
qed

section \<open>Termination and the shape of the tree\<close>

lemma mergeLoop_stuck_aux:
  assumes fx: "iteration ord s = Inr s" and pend: "predecessors s \<noteq> []"
    and run: "mergeLoop o' s' = Some r"
  shows "o' = ord \<Longrightarrow> s' = s \<Longrightarrow> False"
  using run
proof (induction o' s' r rule: mergeLoop.raw_induct[rotated 1, consumes 1])
  case (1 f o' s' r)
  from 1(2) fx pend 1(3,4) have "f ord s = Some r" by simp
  from 1(1)[OF this refl refl] show ?case .
qed

lemma mergeLoop_stuck:
  assumes "iteration ord s = Inr s" and "predecessors s \<noteq> []"
  shows "mergeLoop ord s = None"
proof (cases "mergeLoop ord s")
  case None then show ?thesis .
next
  case (Some r)
  from mergeLoop_stuck_aux[OF assms Some refl refl] show ?thesis ..
qed

text \<open>
  Claim C5, as stated, fails: in \<open>loopGraph\<close> node 0 is the only node without candidates,
  node 1 is reached from it and node 2 from node 1, the cycle between 1 and 2 hangs off the entry
  and none of its edges is marked as a back edge. The merge of node 1 finds no common entry in
  the chains of 0 and 2 in any round, and the outer loop never ends.
\<close>

theorem termination_counterexample:
  "map (getDominatorCandidates loopGraph) (getNodes loopGraph) = [[], [0, 2], [1]] \<and>
   distinct (getNodes loopGraph) \<and> closedGraph loopGraph \<and>
   createDominatorTree insertionOrder loopGraph = None"
proof -
  have c: "map (getDominatorCandidates loopGraph) (getNodes loopGraph) = [[], [0, 2], [1]]" by code_simp
  have d: "distinct (getNodes loopGraph)" by (simp add: loopGraph_def)
  have cl: "closedGraph loopGraph" by (simp add: closedGraph_def loopGraph_def)
  have i: "iteration insertionOrder (directPass loopGraph) = Inr (directPass loopGraph)" by code_simp
  have p: "predecessors (directPass loopGraph) \<noteq> []" by code_simp
  from mergeLoop_stuck[OF i p] c d cl show ?thesis by (simp add: createDominatorTree_def)
qed

text \<open>
  Claim C5, amended. When the candidate edges of the graph form no cycle (there is a numbering
  of the nodes that increases along every candidate edge), the outer loop ends after finitely
  many rounds without an error, the pending map is empty, every node of the graph has a chain,
  and the tree holds every node of the graph.
\<close>

theorem construction_terminates:
  assumes "distinct (getNodes cfg)" and "closedGraph cfg" and "topological cfg rk"
    and "traversal ord"
  shows "\<exists>s'. mergeLoop ord (directPass cfg) = Some (Inr s') \<and> predecessors s' = [] \<and>
              (\<forall>n \<in> set (getNodes cfg). map_of (dominatorChains s') n \<noteq> None) \<and>
              createDominatorTree ord cfg = Some (Inr (tree s')) \<and>
              set (treeNodes (tree s')) = set (getNodes cfg)"
proof -
  have "fullInv cfg rk (directPass cfg)" using assms(1,2,3) by (rule fullInv_directPass)
  from mergeLoop_terminates[OF assms(4,3,2) this]
  obtain s' where run: "mergeLoop ord (directPass cfg) = Some (Inr s')"
    and inv: "fullInv cfg rk s'" and e: "predecessors s' = []" by blast
  have sh: "shapeInv cfg (set (getNodes cfg)) s'" using inv by (simp add: fullInv_def)
  have "\<forall>n \<in> set (getNodes cfg). map_of (dominatorChains s') n \<noteq> None"
    using shapeInv_final_heads[OF sh e] by (auto simp: heads_def)
  moreover have c: "createDominatorTree ord cfg = Some (Inr (tree s'))"
    using run by (simp add: createDominatorTree_def)
  moreover have "set (treeNodes (tree s')) = set (getNodes cfg)"
    using final_tree_nodes[OF assms(1,2) run] by simp
  ultimately show ?thesis using run e by blast
qed

lemma diamond_facts:
  "distinct (getNodes diamond)" "closedGraph diamond" "topological diamond (\<lambda>n. n)"
  "traversal insertionOrder"
proof -
  show "distinct (getNodes diamond)" by (simp add: diamond_def)
  show "closedGraph diamond" by (simp add: closedGraph_def diamond_def)
  have "map (getDominatorCandidates diamond) [0, 1, 2, 3] = [[], [0], [0], [1, 2]]" by code_simp
  then show "topological diamond (\<lambda>n. n)" by (simp add: topological_def diamond_def)
  show "traversal insertionOrder" by (simp add: traversal_def insertionOrder_def)
qed

theorem construction_terminates_witness:
  "distinct (getNodes diamond) \<and> closedGraph diamond \<and> topological diamond (\<lambda>n. n) \<and>
   traversal insertionOrder \<and>
   (\<exists>s'. mergeLoop insertionOrder (directPass diamond) = Some (Inr s') \<and> predecessors s' = [] \<and>
         (\<forall>n \<in> set (getNodes diamond). map_of (dominatorChains s') n \<noteq> None) \<and>
         createDominatorTree insertionOrder diamond = Some (Inr (tree s')) \<and>
         set (treeNodes (tree s')) = set (getNodes diamond))"
  using construction_terminates[OF diamond_facts] diamond_facts by simp

lemma edges_ranked:
  assumes inv: "fullInv cfg rk s" and e: "(d, n) \<in> set (treeEdges (tree s))"
  shows "rk d < rk n \<and> d \<in> set (getNodes cfg) \<and> n \<in> set (getNodes cfg)"
proof -
  have sh: "shapeInv cfg (set (getNodes cfg)) s" and rk: "rankInv cfg rk (dominatorChains s)"
    using inv by (simp_all add: fullInv_def)
  have "(d, n) \<in> set (parentEdges (tree s) n)" using e by (simp add: parentEdges_def)
  moreover have pe: "parentEdges (tree s) n =
      (case heads (dominatorChains s) n of Some (Some d) \<Rightarrow> [(d, n)] | _ \<Rightarrow> [])"
    using sh unfolding shapeInv_def by blast
  ultimately have h: "heads (dominatorChains s) n = Some (Some d)"
    by (auto split: option.splits)
  then obtain c where c: "map_of (dominatorChains s) n = Some c" "hd c = Some d"
    by (auto simp: heads_def)
  have "c \<noteq> []" using sh c(1) unfolding shapeInv_def nonemptyChains_def by blast
  with c(2) have din: "Some d \<in> set c" by (metis hd_in_set)
  have "decreasing rk (Some n # c)" and "d \<in> set (getNodes cfg)"
    using rk c(1) din unfolding rankInv_def by blast+
  moreover have "n \<in> set (getNodes cfg)" using sh h unfolding shapeInv_def by (metis option.distinct(1))
  ultimately show ?thesis using decreasing_below_head[OF _ din, of rk "Some n"] by simp
qed

lemma ranked_trancl:
  assumes "\<forall>(d, n) \<in> E. rk d < (rk n :: nat)" and "(a, b) \<in> E\<^sup>+"
  shows "rk a < rk b"
  using assms(2)
proof (induction rule: trancl_induct)
  case (base y) with assms(1) show ?case by auto
next
  case (step y z) with assms(1) show ?case by force
qed

lemma parentOf_edge: "parentOf t n = Some d \<Longrightarrow> (d, n) \<in> set (treeEdges t)"
proof -
  assume "parentOf t n = Some d"
  then obtain e es where pe: "parentEdges t n = e # es" and d: "fst e = d"
    by (auto simp: parentOf_def split: list.splits)
  have "e \<in> set (parentEdges t n)" using pe by simp
  then have "e \<in> set (treeEdges t)" and "snd e = n" by (simp_all add: parentEdges_def)
  with d show ?thesis by (cases e) simp
qed

lemma climb_reaches_root:
  assumes ranked: "\<forall>(d, n) \<in> set (treeEdges t). rk d < (rk n :: nat) \<and> d \<in> N" and fin: "finite N"
  shows "card {m \<in> N. rk m < rk n} \<le> k \<Longrightarrow> \<exists>r. climb t k n = Some r \<and> parentOf t r = None"
proof (induction k arbitrary: n)
  case 0
  have "parentOf t n = None"
  proof (rule ccontr)
    assume "parentOf t n \<noteq> None"
    then obtain d where "parentOf t n = Some d" by auto
    from parentOf_edge[OF this] ranked have "d \<in> {m \<in> N. rk m < rk n}" by auto
    moreover have "{m \<in> N. rk m < rk n} = {}" using 0 fin by simp
    ultimately show False by simp
  qed
  then show ?case by simp
next
  case (Suc k)
  show ?case
  proof (cases "parentOf t n")
    case None then show ?thesis by simp
  next
    case (Some d)
    from parentOf_edge[OF this] ranked have d: "d \<in> N" "rk d < rk n" by auto
    have "{m \<in> N. rk m < rk d} \<subset> {m \<in> N. rk m < rk n}" using d by auto
    then have "card {m \<in> N. rk m < rk d} < card {m \<in> N. rk m < rk n}"
      using fin by (intro psubset_card_mono) auto
    with Suc.prems have "card {m \<in> N. rk m < rk d} \<le> k" by simp
    from Suc.IH[OF this] Some show ?thesis by simp
  qed
qed

section \<open>The bookkeeping of a successful merge\<close>

text \<open>
  Claim C4, as stated, fails when the first entry of the working list is the sentinel. In
  \<open>twoRoots\<close> node 2 has the candidates 0 and 1, both roots: every chain is known, the
  working list [0, none] is cut to [none] by candidate 1 and is not empty, the chain [none] is
  stored for node 2 and node 2 leaves the pending map, and no tree edge is recorded.
\<close>

theorem sentinel_merge_counterexample:
  "predecessors (directPass twoRoots) = [(2, [0, 1])] \<and>
   predecessorDominatorChains insertionOrder (dominatorChains (directPass twoRoots)) [0, 1]
     = Some [(0, [None]), (1, [None])] \<and>
   mergeChains [Some 0, None] [(1, [None])] = Some [None] \<and>
   tryMerge insertionOrder (directPass twoRoots) 2 [0, 1]
     = Inr \<lparr>tree = \<lparr>treeNodes = [0, 1, 2], treeEdges = []\<rparr>, predecessors = [],
             dominatorChains = [(0, [None]), (1, [None]), (2, [None])]\<rparr> \<and>
   createDominatorTree insertionOrder twoRoots = Some (Inr \<lparr>treeNodes = [0, 1, 2], treeEdges = []\<rparr>)"
proof -
  have 1: "predecessors (directPass twoRoots) = [(2, [0, 1])]" by code_simp
  have 2: "predecessorDominatorChains insertionOrder (dominatorChains (directPass twoRoots)) [0, 1]
     = Some [(0, [None]), (1, [None])]" by code_simp
  have 3: "mergeChains [Some 0, None] [(1, [None])] = Some [None]" by code_simp
  have 4: "tryMerge insertionOrder (directPass twoRoots) 2 [0, 1]
     = Inr \<lparr>tree = \<lparr>treeNodes = [0, 1, 2], treeEdges = []\<rparr>, predecessors = [],
             dominatorChains = [(0, [None]), (1, [None]), (2, [None])]\<rparr>" by code_simp
  have 5: "createDominatorTree insertionOrder twoRoots = Some (Inr \<lparr>treeNodes = [0, 1, 2], treeEdges = []\<rparr>)"
    by code_simp
  from 1 2 3 4 5 show ?thesis by blast
qed

text \<open>
  Claim C4, amended. When a merge attempt for a pending node succeeds (every candidate has a
  chain, the working list is not empty after all candidates), the working list is stored as
  the chain of the node and the node leaves the pending map; a tree edge from the first entry
  to the node is recorded when the first entry is a node, and the tree is left as it is when
  the first entry is the sentinel. (The node has no chain yet, and the two ends of the edge are
  tree nodes, as in every state the builder reaches.)
\<close>

theorem merge_success_bookkeeping:
  assumes "predecessorDominatorChains ord (dominatorChains s) cands = Some ((c, ch) # rest)"
    and "mergeChains (Some c # ch) rest = Some W" and "W \<noteq> []"
    and "map_of (dominatorChains s) n = None"
    and "n \<in> set (treeNodes (tree s))" and "\<forall>d. hd W = Some d \<longrightarrow> d \<in> set (treeNodes (tree s))"
  shows "\<exists>s'. tryMerge ord s n cands = Inr s' \<and>
              map_of (dominatorChains s') n = Some W \<and>
              map_of (predecessors s') n = None \<and>
              treeNodes (tree s') = treeNodes (tree s) \<and>
              treeEdges (tree s') = treeEdges (tree s) @ (case hd W of None \<Rightarrow> [] | Some d \<Rightarrow> [(d, n)])"
proof -
  have "tryMerge ord s n cands = Inr (merged s n W)"
    using assms(1,2,3,5,6)
    by (auto simp: tryMerge_def merged_def recordDominator_def assertNode_def split: option.splits)
  moreover have "map_of (dominatorChains (merged s n W)) n = Some W"
    using assms(4) by (simp add: merged_def map_of_emplace)
  moreover have "map_of (predecessors (merged s n W)) n = None"
    by (simp add: merged_def delete_conv)
  moreover have "treeNodes (tree (merged s n W)) = treeNodes (tree s)"
    and "treeEdges (tree (merged s n W)) = treeEdges (tree s) @ (case hd W of None \<Rightarrow> [] | Some d \<Rightarrow> [(d, n)])"
    by (simp_all add: merged_def addEdge_def split: option.splits)
  ultimately show ?thesis by blast
qed

theorem merge_success_bookkeeping_witness:
  "predecessorDominatorChains insertionOrder (dominatorChains (directPass diamond)) [1, 2]
      = Some ((1, [Some 0, None]) # [(2, [Some 0, None])]) \<and>
   mergeChains (Some 1 # [Some 0, None]) [(2, [Some 0, None])] = Some [Some 0, None] \<and>
   map_of (dominatorChains (directPass diamond)) 3 = None \<and>
   3 \<in> set (treeNodes (tree (directPass diamond))) \<and>
   0 \<in> set (treeNodes (tree (directPass diamond))) \<and>
   (\<exists>s'. tryMerge insertionOrder (directPass diamond) 3 [1, 2] = Inr s' \<and>
      map_of (dominatorChains s') 3 = Some [Some 0, None] \<and>
      map_of (predecessors s') 3 = None \<and>
      treeEdges (tree s') = treeEdges (tree (directPass diamond)) @ [(0, 3)])"
proof -
  have 1: "predecessorDominatorChains insertionOrder (dominatorChains (directPass diamond)) [1, 2]
      = Some ((1, [Some 0, None]) # [(2, [Some 0, None])])" by code_simp
  have 2: "mergeChains (Some 1 # [Some 0, None]) [(2, [Some 0, None])] = Some [Some 0, None]" by code_simp
  have 3: "[Some 0, None] \<noteq> ([] :: chain)" by simp
  have 4: "map_of (dominatorChains (directPass diamond)) 3 = None" by code_simp
  have 5: "3 \<in> set (treeNodes (tree (directPass diamond)))" by code_simp
  have n0: "0 \<in> set (treeNodes (tree (directPass diamond)))" by code_simp
  then have 6: "\<forall>d. hd [Some 0, None] = Some d \<longrightarrow> d \<in> set (treeNodes (tree (directPass diamond)))" by simp
  from merge_success_bookkeeping[OF 1 2 3 4 5 6] 1 2 4 5 n0 show ?thesis by auto
qed

section \<open>Nearest common ancestors\<close>

subsection \<open>Paths of a single-valued relation along which a measure falls\<close>

lemma descending_rtrancl:
  assumes "descending R m" and "(x, y) \<in> R\<^sup>*"
  shows "m y \<le> m x"
  using assms(2)
proof (induction rule: rtrancl_induct)
  case base show ?case by simp
next
  case (step y z)
  with assms(1) show ?case unfolding descending_def by fastforce
qed

lemma descending_trancl:
  assumes "descending R m" and "(x, y) \<in> R\<^sup>+"
  shows "m y < m x"
proof -
  from assms(2) obtain z where "(x, z) \<in> R" "(z, y) \<in> R\<^sup>*" by (metis tranclD)
  with assms(1) descending_rtrancl[OF assms(1), of z y] show ?thesis
    unfolding descending_def by fastforce
qed

lemma descending_antisym:
  assumes "descending R m" and "(x, y) \<in> R\<^sup>*" and "(y, x) \<in> R\<^sup>*"
  shows "x = y"
proof (rule ccontr)
  assume "x \<noteq> y"
  with assms(2) have "(x, y) \<in> R\<^sup>+" by (metis rtranclD)
  from descending_trancl[OF assms(1) this] descending_rtrancl[OF assms(1,3)] show False by simp
qed

lemma pathIn_Cons: "pathIn R (x # y # xs) \<longleftrightarrow> (x, y) \<in> R \<and> pathIn R (y # xs)"
  by (simp add: pathIn_def)

lemma pathIn_tl: "pathIn R (x # xs) \<Longrightarrow> pathIn R xs"
  by (cases xs) (simp_all add: pathIn_def)

lemma pathIn_drop: "pathIn R xs \<Longrightarrow> pathIn R (drop i xs)"
proof (induction i arbitrary: xs)
  case 0 then show ?case by simp
next
  case (Suc i)
  show ?case
  proof (cases xs)
    case Nil then show ?thesis by (simp add: pathIn_def)
  next
    case (Cons x xs')
    with Suc.prems have "pathIn R xs'" by (auto dest: pathIn_tl)
    from Suc.IH[OF this] Cons show ?thesis by simp
  qed
qed

lemma pathIn_reach: "pathIn R (u # xs) \<Longrightarrow> z \<in> set (u # xs) \<Longrightarrow> (u, z) \<in> R\<^sup>*"
proof (induction xs arbitrary: u)
  case Nil then show ?case by simp
next
  case (Cons y ys)
  from Cons.prems(1) have uy: "(u, y) \<in> R" and p: "pathIn R (y # ys)" by (simp_all add: pathIn_Cons)
  show ?case
  proof (cases "z = u")
    case True then show ?thesis by simp
  next
    case False
    with Cons.prems(2) have "z \<in> set (y # ys)" by simp
    from Cons.IH[OF p this] uy show ?thesis by (meson converse_rtrancl_into_rtrancl)
  qed
qed

lemma pathIn_between:
  assumes sv: "single_valued R" and de: "descending R m"
  shows "pathIn R (u # xs) \<Longrightarrow> z \<in> set (u # xs) \<Longrightarrow> (u, x) \<in> R\<^sup>* \<Longrightarrow> (x, z) \<in> R\<^sup>* \<Longrightarrow>
         x \<in> set (u # xs)"
proof (induction xs arbitrary: u)
  case Nil
  then have "z = u" by simp
  with Nil descending_antisym[OF de, of u x] show ?case by simp
next
  case (Cons y ys)
  from Cons.prems(1) have uy: "(u, y) \<in> R" and p: "pathIn R (y # ys)" by (simp_all add: pathIn_Cons)
  show ?case
  proof (cases "x = u")
    case True then show ?thesis by simp
  next
    case False
    with Cons.prems(3) obtain y' where "(u, y') \<in> R" "(y', x) \<in> R\<^sup>*"
      by (metis converse_rtranclE)
    with uy sv have yx: "(y, x) \<in> R\<^sup>*" by (metis single_valuedD)
    have "z \<noteq> u"
    proof
      assume "z = u"
      with Cons.prems(3,4) descending_antisym[OF de, of u x] False show False by simp
    qed
    with Cons.prems(2) have "z \<in> set (y # ys)" by simp
    from Cons.IH[OF p this yx Cons.prems(4)] show ?thesis by simp
  qed
qed

lemma pathIn_truncate:
  assumes sv: "single_valued R" and de: "descending R m"
    and pV: "pathIn R V" and pP: "pathIn R P" and P: "P \<noteq> []"
    and V': "V' = dropWhile (\<lambda>y. y \<notin> set P) V" and ne: "V' \<noteq> []"
  shows "pathIn R V'" and "(hd V, hd V') \<in> R\<^sup>*" and "(hd P, hd V') \<in> R\<^sup>*"
    and "\<forall>x. (hd V, x) \<in> R\<^sup>* \<and> (hd P, x) \<in> R\<^sup>* \<longrightarrow> (hd V', x) \<in> R\<^sup>*"
proof -
  let ?Q = "\<lambda>y. y \<notin> set P"
  obtain h rest where V'c: "V' = h # rest" using ne by (cases V') auto
  define tw where "tw = takeWhile ?Q V"
  have split: "V = tw @ h # rest" using V' V'c unfolding tw_def by (metis takeWhile_dropWhile_id)
  have twQ: "\<And>x. x \<in> set tw \<Longrightarrow> x \<notin> set P"
    unfolding tw_def by (metis (mono_tags, lifting) set_takeWhileD)
  have hP: "h \<in> set P" using V' V'c by (metis (mono_tags, lifting) hd_dropWhile list.sel(1) ne)
  have "V \<noteq> []" using split by simp
  then obtain v0 vs where Vc: "V = v0 # vs" by (cases V) auto
  obtain p0 ps where Pc: "P = p0 # ps" using P by (cases P) auto
  show "pathIn R V'" unfolding V' dropWhile_eq_drop using pV by (rule pathIn_drop)
  have hV: "h \<in> set V" using split by (metis in_set_conv_decomp)
  show vh: "(hd V, hd V') \<in> R\<^sup>*" using pathIn_reach[of R v0 vs h] pV hV Vc V'c by simp
  show ph: "(hd P, hd V') \<in> R\<^sup>*" using pathIn_reach[of R p0 ps h] pP hP Pc V'c by simp
  show "\<forall>x. (hd V, x) \<in> R\<^sup>* \<and> (hd P, x) \<in> R\<^sup>* \<longrightarrow> (hd V', x) \<in> R\<^sup>*"
  proof (intro allI impI, elim conjE)
    fix x assume vx: "(hd V, x) \<in> R\<^sup>*" and px: "(hd P, x) \<in> R\<^sup>*"
    from single_valued_confluent[OF sv vh vx] show "(hd V', x) \<in> R\<^sup>*"
    proof
      assume "(hd V', x) \<in> R\<^sup>*" then show ?thesis .
    next
      assume xh: "(x, hd V') \<in> R\<^sup>*"
      have xP: "x \<in> set P"
        using pathIn_between[OF sv de, of p0 ps h x] pP hP px xh Pc V'c by simp
      have "pathIn R ((tw @ [h]) @ rest)" using pV split by simp
      then have pre: "pathIn R (tw @ [h])"
        unfolding pathIn_def successively_append_iff by blast
      have "x \<in> set (tw @ [h])"
      proof (cases tw)
        case Nil
        with split Vc have "v0 = h" by simp
        with vx xh Vc V'c descending_antisym[OF de, of h x] Nil show ?thesis by simp
      next
        case (Cons t ts)
        with split Vc have t: "t = v0" by simp
        have "x \<in> set (v0 # ts @ [h])"
          using pathIn_between[OF sv de, of v0 "ts @ [h]" h x] pre Cons t vx xh Vc V'c by simp
        with Cons t show ?thesis by simp
      qed
      then have "x = h \<or> x \<in> set tw" by auto
      then show ?thesis
      proof
        assume "x = h" then show ?thesis using V'c by simp
      next
        assume "x \<in> set tw"
        from twQ[OF this] xP show ?thesis by simp
      qed
    qed
  qed
qed

lemma single_valued_up: "single_valued (up h)"
  by (auto simp: single_valued_def up_def)

lemma up_mono: "(\<And>a y. h a = Some y \<Longrightarrow> h' a = Some y) \<Longrightarrow> up h \<subseteq> up h'"
  by (auto simp: up_def)

lemma mergeChains_nearest:
  assumes sv: "single_valued R" and de: "descending R m"
  shows "pathIn R V \<Longrightarrow> \<forall>p \<in> set rest. pathIn R (Some (fst p) # snd p) \<Longrightarrow>
         mergeChains V rest = Some W \<Longrightarrow> W \<noteq> [] \<Longrightarrow>
         pathIn R W \<and> (hd V, hd W) \<in> R\<^sup>* \<and> (\<forall>p \<in> set rest. (Some (fst p), hd W) \<in> R\<^sup>*) \<and>
         (\<forall>x. (hd V, x) \<in> R\<^sup>* \<and> (\<forall>p \<in> set rest. (Some (fst p), x) \<in> R\<^sup>*) \<longrightarrow> (hd W, x) \<in> R\<^sup>*)"
proof (induction V rest rule: mergeChains.induct)
  case (1 V)
  then show ?case by simp
next
  case (2 V c ch rest)
  let ?P = "Some c # ch"
  let ?f = "dropWhile (\<lambda>node. \<not> (Some c = node \<or> node \<in> set ch)) V"
  have pred: "(\<lambda>node. \<not> (Some c = node \<or> node \<in> set ch)) = (\<lambda>y. y \<notin> set ?P)" by auto
  from 2(4) have fne: "?f \<noteq> []" and m: "mergeChains ?f rest = Some W"
    by (auto simp: Let_def split: if_splits)
  have pP: "pathIn R ?P" using 2(3) by simp
  have f: "?f = dropWhile (\<lambda>y. y \<notin> set ?P) V" using pred by simp
  note T = pathIn_truncate[OF sv de 2(2) pP _ f fne]
  have T1: "pathIn R ?f" and T2: "(hd V, hd ?f) \<in> R\<^sup>*" and T3: "(Some c, hd ?f) \<in> R\<^sup>*"
    and T4: "\<forall>x. (hd V, x) \<in> R\<^sup>* \<and> (Some c, x) \<in> R\<^sup>* \<longrightarrow> (hd ?f, x) \<in> R\<^sup>*"
    using T by simp_all
  have rest: "\<forall>p \<in> set rest. pathIn R (Some (fst p) # snd p)" using 2(3) by simp
  from 2(1)[OF refl fne T1 rest m 2(5)]
  have I1: "pathIn R W" and I2: "(hd ?f, hd W) \<in> R\<^sup>*"
    and I3: "\<forall>p \<in> set rest. (Some (fst p), hd W) \<in> R\<^sup>*"
    and I4: "\<forall>x. (hd ?f, x) \<in> R\<^sup>* \<and> (\<forall>p \<in> set rest. (Some (fst p), x) \<in> R\<^sup>*) \<longrightarrow> (hd W, x) \<in> R\<^sup>*"
    by blast+
  have "(hd V, hd W) \<in> R\<^sup>*" using T2 I2 by (rule rtrancl_trans)
  moreover have "(Some c, hd W) \<in> R\<^sup>*" using T3 I2 by (rule rtrancl_trans)
  moreover have "(hd W, x) \<in> R\<^sup>*"
    if "(hd V, x) \<in> R\<^sup>*" "\<forall>p \<in> set ((c, ch) # rest). (Some (fst p), x) \<in> R\<^sup>*" for x
  proof -
    from that have "(hd ?f, x) \<in> R\<^sup>*" using T4 by simp
    with that I4 show ?thesis by simp
  qed
  ultimately show ?case using I1 I3 by simp
qed

lemma reach_in_subrelation:
  assumes sub: "R \<subseteq> R'" and sv: "single_valued R'" and de: "descending R' m"
  shows "(u, z) \<in> R\<^sup>* \<Longrightarrow> (u, x) \<in> R'\<^sup>* \<Longrightarrow> (x, z) \<in> R'\<^sup>* \<Longrightarrow> (u, x) \<in> R\<^sup>*"
proof (induction rule: converse_rtrancl_induct)
  case base
  from descending_antisym[OF de base(1,2)] show ?case by simp
next
  case (step u u1)
  show ?case
  proof (cases "x = u")
    case True then show ?thesis by simp
  next
    case False
    with step.prems(1) obtain y where "(u, y) \<in> R'" "(y, x) \<in> R'\<^sup>*" by (metis converse_rtranclE)
    moreover have "(u, u1) \<in> R'" using step.hyps(1) sub by blast
    ultimately have "(u1, x) \<in> R'\<^sup>*" using sv by (metis single_valuedD)
    from step.IH[OF this step.prems(2)] step.hyps(1) show ?thesis
      by (meson converse_rtrancl_into_rtrancl)
  qed
qed

lemma nearest_mono:
  assumes n: "nearest R C h" and ne: "C \<noteq> {}" and sub: "R \<subseteq> R'"
    and sv: "single_valued R'" and de: "descending R' m"
  shows "nearest R' C h"
proof -
  have sub': "R\<^sup>* \<subseteq> R'\<^sup>*" using sub by (rule rtrancl_mono)
  have 1: "\<forall>c \<in> C. (c, h) \<in> R'\<^sup>*" using n sub' unfolding nearest_def by blast
  have 2: "(h, x) \<in> R'\<^sup>*" if x: "\<forall>c \<in> C. (c, x) \<in> R'\<^sup>*" for x
  proof -
    obtain c0 where c0: "c0 \<in> C" using ne by blast
    have "(c0, h) \<in> R'\<^sup>*" and "(c0, x) \<in> R'\<^sup>*" using 1 x c0 by blast+
    from single_valued_confluent[OF sv this] show ?thesis
    proof
      assume "(h, x) \<in> R'\<^sup>*" then show ?thesis .
    next
      assume xh: "(x, h) \<in> R'\<^sup>*"
      have "\<forall>c \<in> C. (c, x) \<in> R\<^sup>*"
      proof
        fix c assume c: "c \<in> C"
        have "(c, h) \<in> R\<^sup>*" using n c unfolding nearest_def by blast
        from reach_in_subrelation[OF sub sv de this _ xh] x c show "(c, x) \<in> R\<^sup>*" by blast
      qed
      then have "(h, x) \<in> R\<^sup>*" using n unfolding nearest_def by blast
      with sub' show ?thesis by blast
    qed
  qed
  from 1 2 show ?thesis unfolding nearest_def by blast
qed

subsection \<open>Chains are paths of parent links\<close>

lemma descending_up:
  assumes "rankInv cfg rk dc" and "nonemptyChains dc"
  shows "descending (up (heads dc)) (rko rk)"
  unfolding descending_def
proof (intro allI impI)
  fix x y assume "(x, y) \<in> up (heads dc)"
  then obtain a where x: "x = Some a" and h: "heads dc a = Some y" by (auto simp: up_def)
  then obtain c where c: "map_of dc a = Some c" and y: "y = hd c" by (auto simp: heads_def)
  have "c \<noteq> []" using assms(2) c by (auto simp: nonemptyChains_def)
  then have "y \<in> set c" using y by simp
  moreover have "decreasing rk (Some a # c)" using assms(1) c by (auto simp: rankInv_def)
  ultimately show "rko rk y < rko rk x" unfolding x by (rule decreasing_below_head[rotated])
qed

lemma pathIn_mono: "pathIn R xs \<Longrightarrow> R \<subseteq> R' \<Longrightarrow> pathIn R' xs"
  unfolding pathIn_def by (erule successively_mono) blast

lemma pathIn_append:
  "pathIn R (xs @ ys) \<longleftrightarrow> pathIn R xs \<and> pathIn R ys \<and> (xs = [] \<or> ys = [] \<or> (last xs, hd ys) \<in> R)"
  by (simp add: pathIn_def successively_append_iff)

lemma pathIn_Cons_iff: "pathIn R (x # xs) \<longleftrightarrow> (xs = [] \<or> (x, hd xs) \<in> R \<and> pathIn R xs)"
  by (simp add: pathIn_def successively_Cons)

lemma linked_nca_grow:
  assumes li: "linkedInv dc" and nc: "ncaInv cfg dc"
    and new: "map_of dc n = None" and upd: "map_of dc' = (map_of dc)(n \<mapsto> c)"
    and cne: "c \<noteq> []" and pc: "pathIn (up (heads dc)) c"
    and de: "descending (up (heads dc')) m"
    and nn: "2 \<le> length (getDominatorCandidates cfg n) \<Longrightarrow>
             nearest (up (heads dc)) (Some ` set (getDominatorCandidates cfg n)) (hd c)"
  shows "linkedInv dc' \<and> ncaInv cfg dc'"
proof -
  let ?R = "up (heads dc)" and ?R' = "up (heads dc')"
  have h': "heads dc' = (heads dc)(n \<mapsto> hd c)" using upd by (auto simp: heads_def fun_eq_iff)
  have hn: "heads dc n = None" using new by (simp add: heads_def)
  have sub: "?R \<subseteq> ?R'" using hn unfolding h' by (intro up_mono) auto
  have sv: "single_valued ?R'" by (rule single_valued_up)
  have 1: "linkedInv dc'"
    unfolding linkedInv_def
  proof (intro allI impI)
    fix k ck assume k: "map_of dc' k = Some ck"
    show "pathIn ?R' (Some k # ck)"
    proof (cases "k = n")
      case True
      with k upd have "ck = c" by simp
      moreover have "(Some n, hd c) \<in> ?R'" unfolding h' by (simp add: up_def)
      moreover have "pathIn ?R' c" using pc sub by (rule pathIn_mono)
      ultimately show ?thesis using True by (simp add: pathIn_Cons_iff)
    next
      case False
      with k upd have "map_of dc k = Some ck" by simp
      with li have "pathIn ?R (Some k # ck)" unfolding linkedInv_def by blast
      then show ?thesis using sub by (rule pathIn_mono)
    qed
  qed
  have 2: "ncaInv cfg dc'"
    unfolding ncaInv_def
  proof (intro allI impI)
    fix k h assume k: "heads dc' k = Some h" and len: "2 \<le> length (getDominatorCandidates cfg k)"
    have ne: "Some ` set (getDominatorCandidates cfg k) \<noteq> {}" using len by auto
    have "nearest ?R (Some ` set (getDominatorCandidates cfg k)) h"
    proof (cases "k = n")
      case True
      with k h' have "h = hd c" by simp
      with nn len True show ?thesis by simp
    next
      case False
      with k h' have "heads dc k = Some h" by simp
      with nc len show ?thesis unfolding ncaInv_def by blast
    qed
    from nearest_mono[OF this ne sub sv de]
    show "nearest ?R' (Some ` set (getDominatorCandidates cfg k)) h" .
  qed
  from 1 2 show ?thesis ..
qed

lemma linked_nca_extendChain:
  assumes li: "linkedInv dc" and nc: "ncaInv cfg dc" and ne: "nonemptyChains dc"
  shows "linkedInv (extendChain dc k) \<and> ncaInv cfg (extendChain dc k)"
proof (cases "extendChain dc k = dc")
  case True with li nc show ?thesis by simp
next
  case False
  then obtain c q cq where c: "map_of dc k = Some c" "c \<noteq> []" "last c = Some q" "map_of dc q = Some cq"
    and e: "extendChain dc k = AList.update k (c @ cq) dc"
    by (auto simp: extendChain_def split: option.splits if_splits)
  have h: "heads (extendChain dc k) = heads dc" using extendChain_heads[OF ne] by simp
  have cq: "cq \<noteq> []" using ne c(4) by (auto simp: nonemptyChains_def)
  let ?R = "up (heads dc)"
  have p1: "pathIn ?R (Some k # c)" and p2: "pathIn ?R (Some q # cq)"
    using li c(1,4) unfolding linkedInv_def by blast+
  have "pathIn ?R ((Some k # c) @ cq)"
    unfolding pathIn_append using p1 p2 cq c(2,3) by (simp add: pathIn_Cons_iff)
  then have new: "pathIn ?R (Some k # c @ cq)" by simp
  have "linkedInv (extendChain dc k)"
    unfolding linkedInv_def h using li new unfolding e linkedInv_def
    by (auto simp: update_conv')
  moreover have "ncaInv cfg (extendChain dc k)" using nc unfolding ncaInv_def h .
  ultimately show ?thesis ..
qed

lemma goodInv_extendChains:
  assumes "goodInv cfg rk s"
  shows "goodInv cfg rk (s\<lparr>dominatorChains := extendChains ord (dominatorChains s)\<rparr>)"
proof -
  have f: "fullInv cfg rk s" using assms by (simp add: goodInv_def)
  have "nonemptyChains dc \<Longrightarrow> linkedInv dc \<Longrightarrow> ncaInv cfg dc \<Longrightarrow>
        linkedInv (foldl extendChain dc ks) \<and> ncaInv cfg (foldl extendChain dc ks)" for dc ks
  proof (induction ks arbitrary: dc)
    case Nil then show ?case by simp
  next
    case (Cons k ks)
    from linked_nca_extendChain[OF Cons.prems(2,3,1), of k] extendChain_heads[OF Cons.prems(1), of k]
      Cons.IH[of "extendChain dc k"] show ?case by simp
  qed
  from this[of "dominatorChains s" "chainOrder ord (map fst (dominatorChains s))"]
    assms fullInv_extendChains[OF f, of ord] fullInv_chainInv[OF f]
  show ?thesis by (simp add: goodInv_def chainInv_def extendChains_def)
qed

lemma merge_nearest:
  assumes inv: "goodInv cfg rk s" and ordset: "set (candidateOrder ord cs) = set cs"
    and l: "predecessorDominatorChains ord (dominatorChains s) cs = Some ((c, ch) # rest)"
    and m: "mergeChains (Some c # ch) rest = Some W" and ne: "W \<noteq> []"
  shows "pathIn (up (heads (dominatorChains s))) W"
    and "nearest (up (heads (dominatorChains s))) (Some ` set cs) (hd W)"
proof -
  let ?dc = "dominatorChains s" and ?R = "up (heads (dominatorChains s))"
  have f: "fullInv cfg rk s" and li: "linkedInv ?dc"
    using inv by (simp_all add: goodInv_def)
  have sub: "set (candidateOrder ord cs) \<subseteq> set cs" using ordset by simp
  have ci: "chainInv cfg rk ?dc" using f by (rule fullInv_chainInv)
  have de: "descending ?R (rko rk)" using ci unfolding chainInv_def by (intro descending_up[of cfg]) simp_all
  have ent: "pathIn ?R (Some (fst q) # snd q)" if "q \<in> set ((c, ch) # rest)" for q
  proof -
    from pdc_entry[OF l that sub] have "map_of ?dc (fst q) = Some (snd q)" by simp
    with li show ?thesis unfolding linkedInv_def by blast
  qed
  have pV: "pathIn ?R (Some c # ch)" using ent[of "(c, ch)"] by simp
  have prest: "\<forall>q \<in> set rest. pathIn ?R (Some (fst q) # snd q)" using ent by simp
  from mergeChains_nearest[OF single_valued_up de pV prest m ne]
  have pW: "pathIn ?R W" and n1: "(Some c, hd W) \<in> ?R\<^sup>*"
    and n2: "\<forall>q \<in> set rest. (Some (fst q), hd W) \<in> ?R\<^sup>*"
    and n3: "\<forall>x. (Some c, x) \<in> ?R\<^sup>* \<and> (\<forall>q \<in> set rest. (Some (fst q), x) \<in> ?R\<^sup>*) \<longrightarrow> (hd W, x) \<in> ?R\<^sup>*"
    by simp_all
  show "pathIn ?R W" by (rule pW)
  have keys: "set cs = fst ` set ((c, ch) # rest)"
  proof -
    from pdc_Some[OF l] have "fst ` set ((c, ch) # rest) = set (candidateOrder ord cs)"
      by (simp add: image_image del: set_simps)
    with ordset show ?thesis by simp
  qed
  have a: "(Some k, hd W) \<in> ?R\<^sup>*" if "k \<in> set cs" for k
  proof -
    from that keys obtain q where q: "q \<in> set ((c, ch) # rest)" "k = fst q" by blast
    show ?thesis
    proof (cases "q = (c, ch)")
      case True with q n1 show ?thesis by simp
    next
      case False with q n2 show ?thesis by simp
    qed
  qed
  have b: "(hd W, x) \<in> ?R\<^sup>*" if x: "\<forall>k \<in> set cs. (Some k, x) \<in> ?R\<^sup>*" for x
  proof -
    have "c \<in> set cs" using keys by simp
    with x have 1: "(Some c, x) \<in> ?R\<^sup>*" by blast
    have 2: "\<forall>q \<in> set rest. (Some (fst q), x) \<in> ?R\<^sup>*"
    proof
      fix q assume "q \<in> set rest"
      then have "fst q \<in> set cs" using keys by simp
      with x show "(Some (fst q), x) \<in> ?R\<^sup>*" by blast
    qed
    from n3 1 2 show ?thesis by blast
  qed
  show "nearest ?R (Some ` set cs) (hd W)" unfolding nearest_def using a b by blast
qed

lemma goodInv_merged:
  assumes inv: "goodInv cfg rk s" and ordset: "set (candidateOrder ord cs) = set cs"
    and topo: "topological cfg rk" and cl: "closedGraph cfg"
    and p: "map_of (predecessors s) n = Some cs"
    and l: "predecessorDominatorChains ord (dominatorChains s) cs = Some ((c, ch) # rest)"
    and m: "mergeChains (Some c # ch) rest = Some W" and ne: "W \<noteq> []"
  shows "goodInv cfg rk (merged s n W)"
proof -
  let ?dc = "dominatorChains s" and ?R = "up (heads (dominatorChains s))"
  let ?dc' = "emplace n W ?dc"
  have f: "fullInv cfg rk s" and li: "linkedInv ?dc" and nc: "ncaInv cfg ?dc"
    using inv by (simp_all add: goodInv_def)
  have sub: "set (candidateOrder ord cs) \<subseteq> set cs" using ordset by simp
  have f': "fullInv cfg rk (merged s n W)" using fullInv_merged(1)[OF f sub topo cl p l m ne] .
  have sh: "shapeInv cfg (set (getNodes cfg)) s" using f by (simp add: fullInv_def)
  have cs: "cs = getDominatorCandidates cfg n" and hn: "map_of ?dc n = None"
    using sh p unfolding shapeInv_def heads_None_iff[symmetric] by blast+
  have upd: "map_of ?dc' = (map_of ?dc)(n \<mapsto> W)" using hn by (simp add: map_of_emplace)
  have ci': "chainInv cfg rk ?dc'" using fullInv_chainInv[OF f'] by (simp add: merged_def)
  have de': "descending (up (heads ?dc')) (rko rk)"
    using ci' unfolding chainInv_def by (intro descending_up[of cfg]) simp_all
  note mn = merge_nearest[OF inv ordset l m ne]
  have near: "nearest ?R (Some ` set (getDominatorCandidates cfg n)) (hd W)"
    using mn(2) cs by simp
  from linked_nca_grow[OF li nc hn upd ne mn(1) de' near]
  have "linkedInv ?dc' \<and> ncaInv cfg ?dc'" .
  with f' show ?thesis by (simp add: goodInv_def merged_def)
qed

lemma goodInv_tryMerge:
  assumes "goodInv cfg rk s" "traversal ord" "topological cfg rk" "closedGraph cfg"
    "map_of (predecessors s) n = Some cs" "tryMerge ord s n cs = Inr s'"
  shows "goodInv cfg rk s'"
proof (cases rule: tryMerge_cases[of ord s n cs])
  case unchanged with assms show ?thesis by simp
next
  case (failed c ch rest W) with assms(6) show ?thesis by simp
next
  case (resolved c ch rest W)
  have "set (candidateOrder ord cs) = set cs" using assms(2) by (simp add: traversal_def)
  from goodInv_merged[OF assms(1) this assms(3,4,5) resolved(1,2,3)] resolved(4) assms(6)
  show ?thesis by simp
qed

lemma goodInv_iteration:
  assumes inv: "goodInv cfg rk s" and tr: "traversal ord" and topo: "topological cfg rk"
    and cl: "closedGraph cfg" and it: "iteration ord s = Inr s'"
  shows "goodInv cfg rk s'"
proof -
  let ?s1 = "s\<lparr>dominatorChains := extendChains ord (dominatorChains s)\<rparr>"
  have 1: "goodInv cfg rk ?s1" using inv by (rule goodInv_extendChains)
  have 2: "mergePass ord (pendingOrder ord (map fst (predecessors ?s1))) ?s1 = Inr s'"
    using it by (simp add: iteration_def Let_def)
  show ?thesis
  proof (rule mergePass_invariant[where I = "goodInv cfg rk", OF _ 1 2])
    fix s k cs s'
    assume "goodInv cfg rk s" "map_of (predecessors s) k = Some cs" "tryMerge ord s k cs = Inr s'"
    then show "goodInv cfg rk s'" using tr topo cl by (intro goodInv_tryMerge[of cfg rk s ord k cs s'])
  qed
qed

lemma linked_nca_directStep:
  assumes sh: "shapeInv cfg N s" and rk: "rankInv cfg rk (dominatorChains s)"
    and li: "linkedInv (dominatorChains s)" and nc: "ncaInv cfg (dominatorChains s)"
    and xN: "x \<notin> N" and x: "x \<in> set (getNodes cfg)"
    and cl: "closedGraph cfg" and topo: "topological cfg rk"
  shows "linkedInv (dominatorChains (directStep cfg s x)) \<and> ncaInv cfg (dominatorChains (directStep cfg s x))"
proof -
  let ?dc = "dominatorChains s" and ?dc' = "dominatorChains (directStep cfg s x)"
  have hx: "map_of ?dc x = None"
    using sh xN unfolding shapeInv_def heads_None_iff[symmetric] by (metis)
  have sh': "shapeInv cfg (insert x N) (directStep cfg s x)" using sh xN by (rule shapeInv_directStep)
  have rk': "rankInv cfg rk ?dc'" using rk x cl topo hx by (rule rankInv_directStep)
  have de': "descending (up (heads ?dc')) (rko rk)"
    using rk' sh' unfolding shapeInv_def by (intro descending_up[of cfg]) simp_all
  show ?thesis
  proof (cases "getDominatorCandidates cfg x")
    case Nil
    have upd: "map_of ?dc' = (map_of ?dc)(x \<mapsto> [None])"
      using Nil hx by (simp add: directStep_def map_of_emplace)
    show ?thesis
      by (rule linked_nca_grow[OF li nc hx upd _ _ de']) (simp_all add: Nil pathIn_def)
  next
    case (Cons d ds)
    note c = Cons
    show ?thesis
    proof (cases ds)
      case Nil
      have dx: "d \<noteq> x" using candidates_not_self[of x cfg] c by auto
      show ?thesis
      proof (cases "map_of ?dc d")
        case None
        have upd: "map_of ?dc' = (map_of ?dc)(x \<mapsto> [Some d])"
          using c Nil hx dx None by (simp add: directStep_def Let_def map_of_emplace)
        show ?thesis
          by (rule linked_nca_grow[OF li nc hx upd _ _ de']) (simp_all add: c Nil pathIn_def)
      next
        case (Some cd)
        have upd: "map_of ?dc' = (map_of ?dc)(x \<mapsto> Some d # cd)"
          using c Nil hx dx Some by (simp add: directStep_def Let_def map_of_emplace map_of_appendTo)
        have "pathIn (up (heads ?dc)) (Some d # cd)" using li Some unfolding linkedInv_def by blast
        then show ?thesis
          by (intro linked_nca_grow[OF li nc hx upd _ _ de']) (simp_all add: c Nil)
      qed
    next
      case (Cons d' ds')
      then show ?thesis using li nc c by (simp add: directStep_def)
    qed
  qed
qed

lemma goodInv_foldl:
  "shapeInv cfg N s \<Longrightarrow> rankInv cfg rk (dominatorChains s) \<Longrightarrow>
   linkedInv (dominatorChains s) \<Longrightarrow> ncaInv cfg (dominatorChains s) \<Longrightarrow>
   distinct ns \<Longrightarrow> set ns \<inter> N = {} \<Longrightarrow> set ns \<subseteq> set (getNodes cfg) \<Longrightarrow>
   closedGraph cfg \<Longrightarrow> topological cfg rk \<Longrightarrow>
   linkedInv (dominatorChains (foldl (directStep cfg) s ns)) \<and>
   ncaInv cfg (dominatorChains (foldl (directStep cfg) s ns))"
proof (induction ns arbitrary: N s)
  case Nil then show ?case by simp
next
  case (Cons x xs)
  have xN: "x \<notin> N" and x: "x \<in> set (getNodes cfg)" using Cons.prems by auto
  have 1: "shapeInv cfg (insert x N) (directStep cfg s x)"
    using Cons.prems(1) xN by (rule shapeInv_directStep)
  have hx: "map_of (dominatorChains s) x = None"
    using Cons.prems(1) xN unfolding shapeInv_def heads_None_iff[symmetric] by (metis)
  have 2: "rankInv cfg rk (dominatorChains (directStep cfg s x))"
    using Cons.prems(2) x Cons.prems(8,9) hx by (rule rankInv_directStep)
  from linked_nca_directStep[OF Cons.prems(1,2,3,4) xN x Cons.prems(8,9)]
  have 3: "linkedInv (dominatorChains (directStep cfg s x))"
    and 4: "ncaInv cfg (dominatorChains (directStep cfg s x))" by simp_all
  from Cons.IH[OF 1 2 3 4] Cons.prems show ?case by auto
qed

lemma goodInv_directPass:
  assumes "distinct (getNodes cfg)" "closedGraph cfg" "topological cfg rk"
  shows "goodInv cfg rk (directPass cfg)"
proof -
  have "rankInv cfg rk (dominatorChains initialState)" "linkedInv (dominatorChains initialState)"
    "ncaInv cfg (dominatorChains initialState)"
    by (simp_all add: rankInv_def linkedInv_def ncaInv_def heads_def initialState_def)
  from goodInv_foldl[OF shapeInv_initial this, where ns = "getNodes cfg"] assms
    fullInv_directPass[OF assms]
  show ?thesis by (simp add: goodInv_def directPass_def)
qed

lemma goodInv_final:
  assumes "distinct (getNodes cfg)" "closedGraph cfg" "topological cfg rk" "traversal ord"
    and "mergeLoop ord (directPass cfg) = Some (Inr s')"
  shows "goodInv cfg rk s' \<and> predecessors s' = []"
proof (rule mergeLoop_invariant[where I = "goodInv cfg rk", OF _ assms(5)])
  show "goodInv cfg rk (directPass cfg)" using assms(1,2,3) by (rule goodInv_directPass)
next
  fix s s' assume "goodInv cfg rk s" "iteration ord s = Inr s'"
  then show "goodInv cfg rk s'" using assms(4,3,2) by (intro goodInv_iteration[of cfg rk s ord s'])
qed

subsection \<open>Ancestors in the tree\<close>

lemma shapeInv_edgesMatchHeads:
  assumes "shapeInv cfg N s"
  shows "edgesMatchHeads (tree s) (heads (dominatorChains s))"
  unfolding edgesMatchHeads_def
proof (intro allI)
  fix d a
  have pe: "parentEdges (tree s) a =
      (case heads (dominatorChains s) a of Some (Some d) \<Rightarrow> [(d, a)] | _ \<Rightarrow> [])"
    using assms unfolding shapeInv_def by blast
  have "(d, a) \<in> set (treeEdges (tree s)) \<longleftrightarrow> (d, a) \<in> set (parentEdges (tree s) a)"
    by (simp add: parentEdges_def)
  also have "\<dots> \<longleftrightarrow> heads (dominatorChains s) a = Some (Some d)"
    unfolding pe by (auto split: option.splits)
  finally show "(d, a) \<in> set (treeEdges (tree s)) \<longleftrightarrow> heads (dominatorChains s) a = Some (Some d)" .
qed

lemma up_to_edges:
  assumes m: "edgesMatchHeads t h" and r: "(u, v) \<in> (up h)\<^sup>*"
  shows "u = Some c \<Longrightarrow> v = Some x \<Longrightarrow> (x, c) \<in> (set (treeEdges t))\<^sup>*"
  using r
proof (induction arbitrary: x rule: rtrancl_induct)
  case base then show ?case by simp
next
  case (step y z)
  from step.hyps(2) obtain a where y: "y = Some a" and h: "h a = Some z" by (auto simp: up_def)
  with step.prems(2) m have "(x, a) \<in> set (treeEdges t)" by (simp add: edgesMatchHeads_def)
  moreover have "(a, c) \<in> (set (treeEdges t))\<^sup>*" using step.IH[OF step.prems(1) y] .
  ultimately show ?case by (meson converse_rtrancl_into_rtrancl)
qed

lemma edges_to_up:
  assumes m: "edgesMatchHeads t h" and r: "(x, c) \<in> (set (treeEdges t))\<^sup>*"
  shows "(Some c, Some x) \<in> (up h)\<^sup>*"
  using r
proof (induction rule: converse_rtrancl_induct)
  case base show ?case by simp
next
  case (step x y)
  from step.hyps(1) m have "h y = Some (Some x)" by (simp add: edgesMatchHeads_def)
  then have "(Some y, Some x) \<in> up h" by (simp add: up_def)
  with step.IH show ?case by (meson rtrancl.rtrancl_into_rtrancl)
qed

lemma up_from_None: "(u, v) \<in> (up h)\<^sup>* \<Longrightarrow> u = None \<Longrightarrow> v = None"
  by (induction rule: rtrancl_induct) (auto simp: up_def)

lemma nearest_to_tree:
  assumes m: "edgesMatchHeads t h" and n: "nearest (up h) (Some ` set cs) hh" and ne: "cs \<noteq> []"
  shows "nearestCommonAncestor (set (treeEdges t)) cs hh"
proof (cases hh)
  case None
  have "\<not> commonAncestor (set (treeEdges t)) cs x" for x
  proof
    assume "commonAncestor (set (treeEdges t)) cs x"
    then have "\<forall>c \<in> Some ` set cs. (c, Some x) \<in> (up h)\<^sup>*"
      using edges_to_up[OF m] by (auto simp: commonAncestor_def)
    with n None have "(None, Some x) \<in> (up h)\<^sup>*" unfolding nearest_def by blast
    from up_from_None[OF this] show False by simp
  qed
  with None show ?thesis by (simp add: nearestCommonAncestor_def)
next
  case (Some d)
  have 1: "commonAncestor (set (treeEdges t)) cs d"
    unfolding commonAncestor_def
  proof
    fix c assume "c \<in> set cs"
    with n Some have "(Some c, Some d) \<in> (up h)\<^sup>*" unfolding nearest_def by blast
    from up_to_edges[OF m this refl refl] show "(d, c) \<in> (set (treeEdges t))\<^sup>*" .
  qed
  have 2: "(x, d) \<in> (set (treeEdges t))\<^sup>*" if "commonAncestor (set (treeEdges t)) cs x" for x
  proof -
    from that have "\<forall>c \<in> Some ` set cs. (c, Some x) \<in> (up h)\<^sup>*"
      using edges_to_up[OF m] by (auto simp: commonAncestor_def)
    with n Some have "(Some d, Some x) \<in> (up h)\<^sup>*" unfolding nearest_def by blast
    from up_to_edges[OF m this refl refl] show ?thesis .
  qed
  from 1 2 Some show ?thesis by (simp add: nearestCommonAncestor_def)
qed

lemma parentOf_heads:
  assumes "shapeInv cfg N s"
  shows "parentOf (tree s) n = (case heads (dominatorChains s) n of Some (Some d) \<Rightarrow> Some d | _ \<Rightarrow> None)"
proof -
  have "parentEdges (tree s) n =
      (case heads (dominatorChains s) n of Some (Some d) \<Rightarrow> [(d, n)] | _ \<Rightarrow> [])"
    using assms unfolding shapeInv_def by blast
  then show ?thesis by (simp add: parentOf_def split: option.splits)
qed

lemma final_parent_nearest:
  assumes "distinct (getNodes cfg)" "closedGraph cfg" "topological cfg rk" "traversal ord"
    and run: "mergeLoop ord (directPass cfg) = Some (Inr s')"
    and n: "n \<in> set (getNodes cfg)" and len: "2 \<le> length (getDominatorCandidates cfg n)"
  shows "nearestCommonAncestor (set (treeEdges (tree s'))) (getDominatorCandidates cfg n) (parentOf (tree s') n)"
proof -
  from goodInv_final[OF assms(1-4) run] have g: "goodInv cfg rk s'" and e: "predecessors s' = []" by simp_all
  have sh: "shapeInv cfg (set (getNodes cfg)) s'" and nc: "ncaInv cfg (dominatorChains s')"
    using g by (simp_all add: goodInv_def fullInv_def)
  from shapeInv_final_heads[OF sh e n] obtain hh where hh: "heads (dominatorChains s') n = Some hh" by blast
  with nc len have "nearest (up (heads (dominatorChains s'))) (Some ` set (getDominatorCandidates cfg n)) hh"
    unfolding ncaInv_def by blast
  moreover have "getDominatorCandidates cfg n \<noteq> []" using len by auto
  ultimately have "nearestCommonAncestor (set (treeEdges (tree s'))) (getDominatorCandidates cfg n) hh"
    using shapeInv_edgesMatchHeads[OF sh] by (intro nearest_to_tree)
  moreover have "parentOf (tree s') n = hh"
    unfolding parentOf_heads[OF sh] hh by (simp split: option.splits)
  ultimately show ?thesis by simp
qed

subsection \<open>The tree is determined by the graph\<close>

lemma final_characterised:
  assumes "distinct (getNodes cfg)" "closedGraph cfg" "topological cfg rk" "traversal ord"
    and run: "mergeLoop ord (directPass cfg) = Some (Inr s')"
  shows "characterised cfg rk (tree s')"
proof -
  let ?N = "set (getNodes cfg)" and ?t = "tree s'"
  from goodInv_final[OF assms(1-4) run] have g: "goodInv cfg rk s'" by simp
  have f: "fullInv cfg rk s'" using g by (simp add: goodInv_def)
  have sh: "shapeInv cfg ?N s'" using f by (simp add: fullInv_def)
  have 1: "\<forall>e \<in> set (treeEdges ?t). rk (fst e) < rk (snd e)"
    using edges_ranked[OF f] by auto
  have pe: "parentEdges ?t n =
      (case heads (dominatorChains s') n of Some (Some d) \<Rightarrow> [(d, n)] | _ \<Rightarrow> [])" for n
    using sh unfolding shapeInv_def by blast
  have 2: "\<forall>n. parentEdges ?t n = (case parentOf ?t n of None \<Rightarrow> [] | Some d \<Rightarrow> [(d, n)])"
    unfolding parentOf_def pe by (auto split: option.splits)
  have 3: "\<forall>n. n \<notin> ?N \<longrightarrow> parentOf ?t n = None"
  proof (intro allI impI)
    fix n assume "n \<notin> ?N"
    then have "heads (dominatorChains s') n = None" using sh unfolding shapeInv_def by (metis)
    then show "parentOf ?t n = None" unfolding parentOf_def pe by simp
  qed
  have 4: "case getDominatorCandidates cfg n of
          [] \<Rightarrow> parentOf ?t n = None
        | [d] \<Rightarrow> parentOf ?t n = Some d
        | d # d' # ds \<Rightarrow>
            nearestCommonAncestor (set (treeEdges ?t)) (getDominatorCandidates cfg n) (parentOf ?t n)"
    if n: "n \<in> ?N" for n
  proof (cases "getDominatorCandidates cfg n")
    case Nil
    with final_direct_parent[OF assms(1) run n] show ?thesis by (simp add: parentOf_def)
  next
    case (Cons d ds)
    show ?thesis
    proof (cases ds)
      case Nil
      with Cons final_direct_parent[OF assms(1) run n] show ?thesis by (simp add: parentOf_def)
    next
      case (Cons d' ds')
      with \<open>getDominatorCandidates cfg n = d # ds\<close>
      have "2 \<le> length (getDominatorCandidates cfg n)" by simp
      from final_parent_nearest[OF assms(1-4) run n this] Cons \<open>getDominatorCandidates cfg n = d # ds\<close>
      show ?thesis by simp
    qed
  qed
  from 1 2 3 4 show ?thesis unfolding characterised_def by blast
qed

lemma ranked_rtrancl:
  assumes "\<forall>e \<in> E. rk (fst e) < (rk (snd e) :: nat)" and "(a, b) \<in> E\<^sup>*"
  shows "rk a \<le> rk b"
proof (cases "a = b")
  case True then show ?thesis by simp
next
  case False
  with assms(2) have "(a, b) \<in> E\<^sup>+" by (metis rtranclD)
  from ranked_trancl[OF _ this, of rk] assms(1) show ?thesis by fastforce
qed

lemma ancestors_transfer:
  assumes r1: "\<forall>e \<in> E1. rk (fst e) < (rk (snd e) :: nat)"
    and agree: "\<And>d a. rk a < K \<Longrightarrow> (d, a) \<in> E1 \<Longrightarrow> (d, a) \<in> E2"
  shows "(x, c) \<in> E1\<^sup>* \<Longrightarrow> rk c < K \<Longrightarrow> (x, c) \<in> E2\<^sup>*"
proof (induction rule: converse_rtrancl_induct)
  case base show ?case by simp
next
  case (step x y)
  have "rk y \<le> rk c" using ranked_rtrancl[OF r1 step.hyps(2)] .
  with step.prems have "rk y < K" by simp
  from agree[OF this step.hyps(1)] step.IH[OF step.prems] show ?case
    by (meson converse_rtrancl_into_rtrancl)
qed

lemma edge_iff_parentOf:
  assumes "characterised cfg rk t"
  shows "(d, a) \<in> set (treeEdges t) \<longleftrightarrow> parentOf t a = Some d"
proof -
  have "(d, a) \<in> set (treeEdges t) \<longleftrightarrow> (d, a) \<in> set (parentEdges t a)"
    by (simp add: parentEdges_def)
  moreover have "parentEdges t a = (case parentOf t a of None \<Rightarrow> [] | Some d \<Rightarrow> [(d, a)])"
    using assms unfolding characterised_def by blast
  ultimately show ?thesis by (auto split: option.splits)
qed

lemma nearest_agree:
  assumes r1: "\<forall>e \<in> E1. rk (fst e) < (rk (snd e) :: nat)"
    and r2: "\<forall>e \<in> E2. rk (fst e) < rk (snd e)"
    and a12: "\<And>d a. rk a < K \<Longrightarrow> (d, a) \<in> E1 \<Longrightarrow> (d, a) \<in> E2"
    and a21: "\<And>d a. rk a < K \<Longrightarrow> (d, a) \<in> E2 \<Longrightarrow> (d, a) \<in> E1"
    and low: "\<forall>c \<in> set cs. rk c < K" and ne: "cs \<noteq> []"
    and n1: "nearestCommonAncestor E1 cs h1" and n2: "nearestCommonAncestor E2 cs h2"
  shows "h1 = h2"
proof -
  have c12: "commonAncestor E2 cs x" if "commonAncestor E1 cs x" for x
    using that low ancestors_transfer[OF r1 a12] unfolding commonAncestor_def by blast
  have c21: "commonAncestor E1 cs x" if "commonAncestor E2 cs x" for x
    using that low ancestors_transfer[OF r2 a21] unfolding commonAncestor_def by blast
  obtain c0 where c0: "c0 \<in> set cs" using ne by (cases cs) auto
  show ?thesis
  proof (cases h1)
    case None
    show ?thesis
    proof (cases h2)
      case None with \<open>h1 = None\<close> show ?thesis by simp
    next
      case (Some d2)
      with n2 have "commonAncestor E2 cs d2" by (simp add: nearestCommonAncestor_def)
      from c21[OF this] n1 None show ?thesis by (simp add: nearestCommonAncestor_def)
    qed
  next
    case (Some d1)
    with n1 have com1: "commonAncestor E1 cs d1"
      and near1: "\<And>x. commonAncestor E1 cs x \<Longrightarrow> (x, d1) \<in> E1\<^sup>*"
      by (simp_all add: nearestCommonAncestor_def)
    show ?thesis
    proof (cases h2)
      case None
      with n2 c12[OF com1] show ?thesis by (simp add: nearestCommonAncestor_def)
    next
      case (Some d2)
      with n2 have com2: "commonAncestor E2 cs d2"
        and near2: "\<And>x. commonAncestor E2 cs x \<Longrightarrow> (x, d2) \<in> E2\<^sup>*"
        by (simp_all add: nearestCommonAncestor_def)
      have 1: "(d1, d2) \<in> E2\<^sup>*" using near2[OF c12[OF com1]] .
      have "(d2, d1) \<in> E1\<^sup>*" using near1[OF c21[OF com2]] .
      moreover have "rk d1 < K"
      proof -
        have "(d1, c0) \<in> E1\<^sup>*" using com1 c0 unfolding commonAncestor_def by blast
        from ranked_rtrancl[OF r1 this] low c0 show ?thesis by fastforce
      qed
      ultimately have 2: "(d2, d1) \<in> E2\<^sup>*" using ancestors_transfer[OF r1 a12] by blast
      have "d1 = d2"
      proof (rule ccontr)
        assume "d1 \<noteq> d2"
        with 1 have "(d1, d2) \<in> E2\<^sup>+" by (metis rtranclD)
        from ranked_trancl[OF _ this, of rk] r2 ranked_rtrancl[OF r2 2] show False by fastforce
      qed
      with \<open>h1 = Some d1\<close> Some show ?thesis by simp
    qed
  qed
qed

lemma characterised_unique:
  assumes topo: "topological cfg rk" and c1: "characterised cfg rk t1" and c2: "characterised cfg rk t2"
  shows "parentOf t1 n = parentOf t2 n"
proof (induction "rk n" arbitrary: n rule: less_induct)
  case less
  show ?case
  proof (cases "n \<in> set (getNodes cfg)")
    case False
    with c1 c2 show ?thesis unfolding characterised_def by simp
  next
    case True
    have k1: "case getDominatorCandidates cfg n of
          [] \<Rightarrow> parentOf t1 n = None
        | [d] \<Rightarrow> parentOf t1 n = Some d
        | d # d' # ds \<Rightarrow>
            nearestCommonAncestor (set (treeEdges t1)) (getDominatorCandidates cfg n) (parentOf t1 n)"
      using c1 True unfolding characterised_def by blast
    have k2: "case getDominatorCandidates cfg n of
          [] \<Rightarrow> parentOf t2 n = None
        | [d] \<Rightarrow> parentOf t2 n = Some d
        | d # d' # ds \<Rightarrow>
            nearestCommonAncestor (set (treeEdges t2)) (getDominatorCandidates cfg n) (parentOf t2 n)"
      using c2 True unfolding characterised_def by blast
    show ?thesis
    proof (cases "getDominatorCandidates cfg n")
      case Nil with k1 k2 show ?thesis by simp
    next
      case (Cons d ds)
      show ?thesis
      proof (cases ds)
        case Nil with Cons k1 k2 show ?thesis by simp
      next
        case (Cons d' ds')
        let ?cs = "getDominatorCandidates cfg n"
        from Cons \<open>?cs = d # ds\<close> k1 k2
        have n1: "nearestCommonAncestor (set (treeEdges t1)) ?cs (parentOf t1 n)"
          and n2: "nearestCommonAncestor (set (treeEdges t2)) ?cs (parentOf t2 n)" by simp_all
        have ne: "?cs \<noteq> []" using \<open>?cs = d # ds\<close> by simp
        have low: "\<forall>c \<in> set ?cs. rk c < rk n" using topo True unfolding topological_def by blast
        have r1: "\<forall>e \<in> set (treeEdges t1). rk (fst e) < rk (snd e)"
          and r2: "\<forall>e \<in> set (treeEdges t2). rk (fst e) < rk (snd e)"
          using c1 c2 unfolding characterised_def by blast+
        have a12: "(d, a) \<in> set (treeEdges t2)" if "rk a < rk n" "(d, a) \<in> set (treeEdges t1)" for d a
          using that less.hyps[of a] edge_iff_parentOf[OF c1] edge_iff_parentOf[OF c2] by simp
        have a21: "(d, a) \<in> set (treeEdges t1)" if "rk a < rk n" "(d, a) \<in> set (treeEdges t2)" for d a
          using that less.hyps[of a] edge_iff_parentOf[OF c1] edge_iff_parentOf[OF c2] by simp
        from nearest_agree[OF r1 r2 a12 a21 low ne n1 n2] show ?thesis by simp
      qed
    qed
  qed
qed

text \<open>
  Claim C9. Two runs of the builder on the same graph assign the same parent to every node.
  With the same traversal orders of the hash containers the two runs are the same
  computation. On a well-formed graph (nodes held once, edges between nodes of the graph, no
  cycle of candidate edges) the parent assignment does not depend on the traversal orders
  either.
\<close>

theorem construction_deterministic:
  assumes "createDominatorTree ord1 cfg = Some (Inr t1)"
    and "createDominatorTree ord2 cfg = Some (Inr t2)"
    and "ord1 = ord2 \<or>
         (distinct (getNodes cfg) \<and> closedGraph cfg \<and> topological cfg rk \<and>
          traversal ord1 \<and> traversal ord2)"
  shows "\<forall>n. parentEdges t1 n = parentEdges t2 n"
  using assms(3)
proof
  assume "ord1 = ord2"
  with assms(1,2) show ?thesis by simp
next
  assume wf: "distinct (getNodes cfg) \<and> closedGraph cfg \<and> topological cfg rk \<and>
          traversal ord1 \<and> traversal ord2"
  from assms(1) obtain s1 where run1: "mergeLoop ord1 (directPass cfg) = Some (Inr s1)" and t1: "t1 = tree s1"
    unfolding createDominatorTree_Inr by blast
  from assms(2) obtain s2 where run2: "mergeLoop ord2 (directPass cfg) = Some (Inr s2)" and t2: "t2 = tree s2"
    unfolding createDominatorTree_Inr by blast
  have c1: "characterised cfg rk t1" unfolding t1 using wf run1 by (intro final_characterised) simp_all
  have c2: "characterised cfg rk t2" unfolding t2 using wf run2 by (intro final_characterised) simp_all
  have topo: "topological cfg rk" using wf by simp
  show ?thesis
  proof
    fix n
    have "parentEdges t1 n = (case parentOf t1 n of None \<Rightarrow> [] | Some d \<Rightarrow> [(d, n)])"
      and "parentEdges t2 n = (case parentOf t2 n of None \<Rightarrow> [] | Some d \<Rightarrow> [(d, n)])"
      using c1 c2 unfolding characterised_def by blast+
    with characterised_unique[OF topo c1 c2, of n] show "parentEdges t1 n = parentEdges t2 n" by simp
  qed
qed

theorem construction_deterministic_witness:
  "createDominatorTree insertionOrder diamond =
     Some (Inr \<lparr>treeNodes = [0, 1, 2, 3], treeEdges = [(0, 1), (0, 2), (0, 3)]\<rparr>) \<and>
   createDominatorTree reverseOrder diamond =
     Some (Inr \<lparr>treeNodes = [0, 1, 2, 3], treeEdges = [(0, 1), (0, 2), (0, 3)]\<rparr>) \<and>
   insertionOrder \<noteq> reverseOrder \<and>
   distinct (getNodes diamond) \<and> closedGraph diamond \<and> topological diamond (\<lambda>n. n) \<and>
   traversal insertionOrder \<and> traversal reverseOrder \<and>
   (\<forall>n. parentEdges \<lparr>treeNodes = [0, 1, 2, 3], treeEdges = [(0, 1), (0, 2), (0, 3)]\<rparr> n =
        parentEdges \<lparr>treeNodes = [0, 1, 2, 3], treeEdges = [(0, 1), (0, 2), (0, 3)]\<rparr> n)"
proof -
  let ?t = "\<lparr>treeNodes = [0, 1, 2, 3], treeEdges = [(0, 1), (0, 2), (0, 3)]\<rparr>"
  have a: "createDominatorTree insertionOrder diamond = Some (Inr ?t)" by code_simp
  have b: "createDominatorTree reverseOrder diamond = Some (Inr ?t)" by code_simp
  have r: "traversal reverseOrder" by (simp add: traversal_def reverseOrder_def)
  have "chainOrder insertionOrder [0, 1] \<noteq> chainOrder reverseOrder [0, 1]"
    by (simp add: insertionOrder_def reverseOrder_def)
  then have ne: "insertionOrder \<noteq> reverseOrder" by auto
  have c: "insertionOrder = reverseOrder \<or>
         (distinct (getNodes diamond) \<and> closedGraph diamond \<and> topological diamond (\<lambda>n. n) \<and>
          traversal insertionOrder \<and> traversal reverseOrder)"
    using diamond_facts r by simp
  from construction_deterministic[OF a b c] a b ne diamond_facts r show ?thesis by simp
qed

lemma ancestor_step:
  assumes c: "characterised cfg rk t" and r: "(x, a) \<in> (set (treeEdges t))\<^sup>*"
  shows "x = a \<or> (\<exists>d. parentOf t a = Some d \<and> (x, d) \<in> (set (treeEdges t))\<^sup>*)"
  using r
proof (cases rule: rtranclE)
  case base then show ?thesis by simp
next
  case (step y)
  with edge_iff_parentOf[OF c] show ?thesis by blast
qed

lemma diamond_candidates:
  "getDominatorCandidates (diamondIn ns) 0 = []"
  "getDominatorCandidates (diamondIn ns) 1 = [0]"
  "getDominatorCandidates (diamondIn ns) 2 = [0]"
  "getDominatorCandidates (diamondIn ns) 3 = [1, 2]"
proof -
  have e: "getDominatorCandidates (diamondIn ns) n = getDominatorCandidates diamond n" for n
    by (simp add: getDominatorCandidates_def diamondIn_def)
  show "getDominatorCandidates (diamondIn ns) 0 = []" unfolding e by code_simp
  show "getDominatorCandidates (diamondIn ns) 1 = [0]" unfolding e by code_simp
  show "getDominatorCandidates (diamondIn ns) 2 = [0]" unfolding e by code_simp
  show "getDominatorCandidates (diamondIn ns) 3 = [1, 2]" unfolding e by code_simp
qed

text \<open>
  Claim C7. For the diamond A = 0, B = 1, C = 2, D = 3 with the edges 0\<rightarrow>1, 0\<rightarrow>2, 1\<rightarrow>3, 2\<rightarrow>3,
  none of them a back edge or a work-group-loop edge, in whatever order the node container
  and the hash containers of the builder are traversed: the builder returns a tree in which 0
  is the only parent of 1, of 2 and of 3, and 0 has no parent.
\<close>

theorem diamond_merge:
  assumes "traversal ord" and "distinct ns" and "set ns = {0, 1, 2, 3}"
  shows "\<exists>t. createDominatorTree ord (diamondIn ns) = Some (Inr t) \<and>
             parentEdges t 1 = [(0, 1)] \<and> parentEdges t 2 = [(0, 2)] \<and>
             parentEdges t 3 = [(0, 3)] \<and> parentEdges t 0 = []"
proof -
  let ?g = "diamondIn ns"
  have nodes: "getNodes ?g = ns" by (simp add: diamondIn_def)
  have d: "distinct (getNodes ?g)" using assms(2) nodes by simp
  have cl: "closedGraph ?g"
    unfolding closedGraph_def nodes assms(3) by (simp add: diamondIn_def diamond_def)
  have topo: "topological ?g (\<lambda>n. n)"
    unfolding topological_def nodes assms(3) by (simp add: diamond_candidates del: One_nat_def)
  have "fullInv ?g (\<lambda>n. n) (directPass ?g)" using d cl topo by (rule fullInv_directPass)
  from mergeLoop_terminates[OF assms(1) topo cl this]
  obtain s' where run: "mergeLoop ord (directPass ?g) = Some (Inr s')" by blast
  let ?t = "tree s'" and ?E = "set (treeEdges (tree s'))"
  have ch: "characterised ?g (\<lambda>n. n) ?t" using d cl topo assms(1) run by (rule final_characterised)
  have pe: "parentEdges ?t n = (case parentOf ?t n of None \<Rightarrow> [] | Some d \<Rightarrow> [(d, n)])" for n
    using ch unfolding characterised_def by blast
  have k: "n \<in> set (getNodes ?g) \<Longrightarrow> (case getDominatorCandidates ?g n of
          [] \<Rightarrow> parentOf ?t n = None
        | [d] \<Rightarrow> parentOf ?t n = Some d
        | d # d' # ds \<Rightarrow>
            nearestCommonAncestor ?E (getDominatorCandidates ?g n) (parentOf ?t n))" for n
    using ch unfolding characterised_def by blast
  have p0: "parentOf ?t 0 = None" using k[of 0] by (simp add: nodes assms(3) diamond_candidates del: One_nat_def)
  have p1: "parentOf ?t 1 = Some 0" using k[of 1] by (simp add: nodes assms(3) diamond_candidates del: One_nat_def)
  have p2: "parentOf ?t 2 = Some 0" using k[of 2] by (simp add: nodes assms(3) diamond_candidates del: One_nat_def)
  have n3: "nearestCommonAncestor ?E [1, 2] (parentOf ?t 3)"
    using k[of 3] by (simp add: nodes assms(3) diamond_candidates del: One_nat_def)
  have a0: "x = 0" if "(x, 0) \<in> ?E\<^sup>*" for x
    using ancestor_step[OF ch that] p0 by simp
  have a1: "x = 1 \<or> x = 0" if "(x, 1) \<in> ?E\<^sup>*" for x
    using ancestor_step[OF ch that] p1 a0 by auto
  have a2: "x = 2 \<or> x = 0" if "(x, 2) \<in> ?E\<^sup>*" for x
    using ancestor_step[OF ch that] p2 a0 by auto
  have e1: "(0, 1) \<in> ?E" and e2: "(0, 2) \<in> ?E"
    using edge_iff_parentOf[OF ch] p1 p2 by simp_all
  have com0: "commonAncestor ?E [1, 2] 0" using e1 e2 by (auto simp: commonAncestor_def)
  have p3: "parentOf ?t 3 = Some 0"
  proof (cases "parentOf ?t 3")
    case None
    with n3 com0 show ?thesis by (simp add: nearestCommonAncestor_def)
  next
    case (Some d)
    with n3 have "commonAncestor ?E [1, 2] d" by (simp add: nearestCommonAncestor_def)
    then have "(d, 1) \<in> ?E\<^sup>*" "(d, 2) \<in> ?E\<^sup>*" by (simp_all add: commonAncestor_def)
    from a1[OF this(1)] a2[OF this(2)] have "d = 0" by auto
    with Some show ?thesis by simp
  qed
  have "createDominatorTree ord ?g = Some (Inr ?t)" using run by (simp add: createDominatorTree_def)
  moreover have "parentEdges ?t 1 = [(0, 1)]" "parentEdges ?t 2 = [(0, 2)]"
    "parentEdges ?t 3 = [(0, 3)]" "parentEdges ?t 0 = []"
    unfolding pe p0 p1 p2 p3 by simp_all
  ultimately show ?thesis by blast
qed

theorem diamond_merge_witness:
  "traversal reverseOrder \<and> distinct [3, 1, 0, 2 :: nat] \<and> set [3, 1, 0, 2 :: nat] = {0, 1, 2, 3} \<and>
   createDominatorTree reverseOrder (diamondIn [3, 1, 0, 2])
     = Some (Inr \<lparr>treeNodes = [3, 1, 0, 2], treeEdges = [(0, 1), (0, 2), (0, 3)]\<rparr>) \<and>
   (\<exists>t. createDominatorTree reverseOrder (diamondIn [3, 1, 0, 2]) = Some (Inr t) \<and>
        parentEdges t 1 = [(0, 1)] \<and> parentEdges t 2 = [(0, 2)] \<and>
        parentEdges t 3 = [(0, 3)] \<and> parentEdges t 0 = [])"
proof -
  have a: "traversal reverseOrder" by (simp add: traversal_def reverseOrder_def)
  have b: "distinct [3, 1, 0, 2 :: nat]" by simp
  have c: "set [3, 1, 0, 2 :: nat] = {0, 1, 2, 3}" by auto
  have e: "createDominatorTree reverseOrder (diamondIn [3, 1, 0, 2])
     = Some (Inr \<lparr>treeNodes = [3, 1, 0, 2], treeEdges = [(0, 1), (0, 2), (0, 3)]\<rparr>)" by code_simp
  from diamond_merge[OF a b c] a b c e show ?thesis by blast
qed

subsection \<open>The merge attempt\<close>

lemma mergeChains_spec: "mergeChains W rest = specWorkingList W rest"
proof (induction W rest rule: mergeChains.induct)
  case (1 W) show ?case by simp
next
  case (2 W c ch rest)
  let ?P = "\<lambda>node. \<not> (Some c = node \<or> node \<in> set ch)"
  have P: "(\<lambda>x. \<not> (x = Some c \<or> x \<in> set ch)) = ?P" by auto
  show ?case
  proof (cases "\<exists>x \<in> set W. x = Some c \<or> x \<in> set ch")
    case True
    then have ne: "dropWhile ?P W \<noteq> []" by auto
    have "firstMatch W c ch = Some (length (takeWhile (\<lambda>x. \<not> (x = Some c \<or> x \<in> set ch)) W))"
      using True by (simp add: firstMatch_def)
    then have fm: "firstMatch W c ch = Some (length (takeWhile ?P W))" unfolding P .
    from 2[OF refl ne] ne fm show ?thesis by (simp add: Let_def dropWhile_eq_drop)
  next
    case False
    then have "dropWhile ?P W = []" by auto
    moreover have "firstMatch W c ch = None" using False by (simp add: firstMatch_def)
    ultimately show ?thesis by (simp add: Let_def)
  qed
qed

text \<open>Every state of a run is a reached state, the returned one included.\<close>

lemma reached_iteration:
  assumes "reached ord cfg s" and "iteration ord s = Inr s'"
  shows "reached ord cfg s'"
proof -
  let ?s1 = "s\<lparr>dominatorChains := extendChains ord (dominatorChains s)\<rparr>"
  have 1: "reached ord cfg ?s1" using assms(1) by (rule reached.extended)
  have 2: "mergePass ord (pendingOrder ord (map fst (predecessors ?s1))) ?s1 = Inr s'"
    using assms(2) by (simp add: iteration_def Let_def)
  show ?thesis
    by (rule mergePass_invariant[where I = "reached ord cfg", OF _ 1 2]) (rule reached.attempted)
qed

lemma reached_result:
  assumes "mergeLoop ord (directPass cfg) = Some (Inr s')"
  shows "reached ord cfg s'"
proof -
  have "reached ord cfg s' \<and> predecessors s' = []"
  proof (rule mergeLoop_invariant[where I = "reached ord cfg", OF _ assms])
    show "reached ord cfg (directPass cfg)" by (rule reached.direct)
  qed (rule reached_iteration)
  then show ?thesis ..
qed

lemma reached_goodInv:
  assumes "distinct (getNodes cfg)" "closedGraph cfg" "topological cfg rk" "traversal ord"
  shows "reached ord cfg s \<Longrightarrow> goodInv cfg rk s"
proof (induction rule: reached.induct)
  case direct
  show ?case using assms(1,2,3) by (rule goodInv_directPass)
next
  case (extended s)
  then show ?case by (intro goodInv_extendChains)
next
  case (attempted s k cs s')
  from goodInv_tryMerge[OF attempted.IH assms(4,3,2) attempted.hyps(2,3)] show ?case .
qed

text \<open>
  The two places where the source would leave defined behaviour do not arise on such a graph:
  no chain holds its own node, so chain extension never inserts a vector into itself, and a
  pending candidate set is never empty.
\<close>

lemma reached_defined_behaviour:
  assumes "distinct (getNodes cfg)" "closedGraph cfg" "topological cfg rk" "traversal ord"
    and "reached ord cfg s"
  shows "(\<forall>n c. map_of (dominatorChains s) n = Some c \<longrightarrow> Some n \<notin> set c) \<and>
         (\<forall>n cs. map_of (predecessors s) n = Some cs \<longrightarrow> cs \<noteq> [])"
proof -
  have g: "goodInv cfg rk s" using assms by (rule reached_goodInv)
  have sh: "shapeInv cfg (set (getNodes cfg)) s" and rk: "rankInv cfg rk (dominatorChains s)"
    using g by (simp_all add: goodInv_def fullInv_def)
  have 1: "Some n \<notin> set c" if "map_of (dominatorChains s) n = Some c" for n c
  proof
    assume "Some n \<in> set c"
    moreover have "decreasing rk (Some n # c)" using rk that unfolding rankInv_def by blast
    ultimately have "rko rk (Some n) < rko rk (Some n)" by (rule decreasing_below_head[rotated])
    then show False by simp
  qed
  have 2: "cs \<noteq> []" if "map_of (predecessors s) n = Some cs" for n cs
  proof -
    from sh that have "2 \<le> length cs" unfolding shapeInv_def by blast
    then show ?thesis by auto
  qed
  from 1 2 show ?thesis by blast
qed

text \<open>
  Claim C1. When the builder resolves a pending node (a node with more than one candidate),
  the working list it ends with is the one the specification describes: seeded with the first
  candidate and its chain, and cut for every further candidate C at its first entry that
  equals C or occurs in the chain of C. The parent recorded for the node is the first entry
  of that list, and this entry is the nearest common ancestor of all candidates in the tree
  built so far: it is an ancestor of every candidate or the candidate itself, and every other
  common ancestor is an ancestor of it. When the first entry is the sentinel, no edge is
  recorded and the candidates have no common ancestor.
\<close>

theorem merge_records_nearest_common_ancestor:
  assumes "distinct (getNodes cfg)" and "closedGraph cfg" and "topological cfg rk"
    and "traversal ord" and "reached ord cfg s"
    and "map_of (predecessors s) n = Some cands"
    and "tryMerge ord s n cands = Inr s'" and "s' \<noteq> s"
  shows "\<exists>c1 rest W.
           cands = getDominatorCandidates cfg n \<and> 2 \<le> length cands \<and>
           candidateOrder ord cands = c1 # rest \<and>
           specWorkingList (Some c1 # chainOf (dominatorChains s) c1)
             (map (\<lambda>c. (c, chainOf (dominatorChains s) c)) rest) = Some W \<and>
           W \<noteq> [] \<and>
           parentEdges (tree s') n = (case hd W of None \<Rightarrow> [] | Some d \<Rightarrow> [(d, n)]) \<and>
           nearestCommonAncestor (set (treeEdges (tree s))) cands (hd W)"
proof -
  let ?dc = "dominatorChains s"
  let ?f = "\<lambda>c. (c, chainOf ?dc c)"
  have g: "goodInv cfg rk s" using assms(1-5) by (rule reached_goodInv)
  have sh: "shapeInv cfg (set (getNodes cfg)) s" using g by (simp add: goodInv_def fullInv_def)
  have cs: "cands = getDominatorCandidates cfg n" and len: "2 \<le> length cands"
    and hn: "heads ?dc n = None"
    using sh assms(6) unfolding shapeInv_def by blast+
  have ordset: "set (candidateOrder ord cands) = set cands" using assms(4) by (simp add: traversal_def)
  show ?thesis
  proof (cases rule: tryMerge_cases[of ord s n cands])
    case unchanged with assms(7,8) show ?thesis by simp
  next
    case (failed c ch rest' W) with assms(7) show ?thesis by simp
  next
    case (resolved c ch rest' W)
    from pdc_Some[OF resolved(1)] have "map ?f (candidateOrder ord cands) = (c, ch) # rest'"
      by (simp add: chainOf_def)
    then obtain rest where o: "candidateOrder ord cands = c # rest" and ch: "ch = chainOf ?dc c"
      and rest': "rest' = map ?f rest" by (auto simp: map_eq_Cons_conv)
    have spec: "specWorkingList (Some c # chainOf ?dc c) (map ?f rest) = Some W"
      using resolved(2) unfolding mergeChains_spec ch rest' .
    have s': "s' = merged s n W" using resolved(4) assms(7) by simp
    have sh': "shapeInv cfg (set (getNodes cfg)) (merged s n W)"
      using sh assms(6) resolved(3) by (rule shapeInv_merged)
    have "heads (dominatorChains (merged s n W)) n = Some (hd W)"
      using hn by (simp add: merged_def heads_emplace_new)
    moreover have "parentEdges (tree (merged s n W)) n =
        (case heads (dominatorChains (merged s n W)) n of Some (Some d) \<Rightarrow> [(d, n)] | _ \<Rightarrow> [])"
      using sh' unfolding shapeInv_def by blast
    ultimately have pe: "parentEdges (tree s') n = (case hd W of None \<Rightarrow> [] | Some d \<Rightarrow> [(d, n)])"
      unfolding s' by (simp split: option.splits)
    have "cands \<noteq> []" using len by auto
    with merge_nearest(2)[OF g ordset resolved(1,2,3)] shapeInv_edgesMatchHeads[OF sh]
    have nca: "nearestCommonAncestor (set (treeEdges (tree s))) cands (hd W)"
      by (intro nearest_to_tree)
    from cs len o spec resolved(3) pe nca show ?thesis by blast
  qed
qed

theorem merge_records_nearest_common_ancestor_witness:
  "distinct (getNodes diamond) \<and> closedGraph diamond \<and> topological diamond (\<lambda>n. n) \<and>
   traversal insertionOrder \<and> reached insertionOrder diamond (directPass diamond) \<and>
   map_of (predecessors (directPass diamond)) 3 = Some [1, 2] \<and>
   tryMerge insertionOrder (directPass diamond) 3 [1, 2]
     = Inr \<lparr>tree = \<lparr>treeNodes = [0, 1, 2, 3], treeEdges = [(0, 1), (0, 2), (0, 3)]\<rparr>,
            predecessors = [],
            dominatorChains = [(0, [None]), (1, [Some 0, None]), (2, [Some 0, None]), (3, [Some 0, None])]\<rparr> \<and>
   specWorkingList (Some 1 # chainOf (dominatorChains (directPass diamond)) 1)
     (map (\<lambda>c. (c, chainOf (dominatorChains (directPass diamond)) c)) [2]) = Some [Some 0, None] \<and>
   (\<exists>c1 rest W.
      candidateOrder insertionOrder [1, 2] = c1 # rest \<and>
      specWorkingList (Some c1 # chainOf (dominatorChains (directPass diamond)) c1)
        (map (\<lambda>c. (c, chainOf (dominatorChains (directPass diamond)) c)) rest) = Some W \<and>
      nearestCommonAncestor (set (treeEdges (tree (directPass diamond)))) [1, 2] (hd W))"
proof -
  let ?s' = "\<lparr>tree = \<lparr>treeNodes = [0, 1, 2, 3], treeEdges = [(0, 1), (0, 2), (0, 3)]\<rparr>,
            predecessors = [],
            dominatorChains = [(0, [None]), (1, [Some 0, None]), (2, [Some 0, None]), (3, [Some 0, None])]\<rparr>"
  have r: "reached insertionOrder diamond (directPass diamond)" by (rule reached.direct)
  have p: "map_of (predecessors (directPass diamond)) 3 = Some [1, 2]" by code_simp
  have t: "tryMerge insertionOrder (directPass diamond) 3 [1, 2] = Inr ?s'" by code_simp
  have ne: "?s' \<noteq> directPass diamond"
  proof
    assume e: "?s' = directPass diamond"
    from arg_cong[OF e, of predecessors] have "predecessors (directPass diamond) = []" by simp
    with p show False by simp
  qed
  have w: "specWorkingList (Some 1 # chainOf (dominatorChains (directPass diamond)) 1)
     (map (\<lambda>c. (c, chainOf (dominatorChains (directPass diamond)) c)) [2]) = Some [Some 0, None]"
    by code_simp
  from merge_records_nearest_common_ancestor[OF diamond_facts r p t ne] diamond_facts r p t w
  show ?thesis by blast
qed

section \<open>The tree of a graph with a single entry\<close>

subsection \<open>Graphs with a single entry\<close>

lemma candidateEdges_iff:
  "(d, n) \<in> set (candidateEdges cfg) \<longleftrightarrow>
   n \<in> set (getNodes cfg) \<and> d \<in> set (getDominatorCandidates cfg n)"
  by (auto simp: candidateEdges_def)

lemma entry_unique:
  assumes "singleEntry cfg r" and "n \<in> set (getNodes cfg)" and "getDominatorCandidates cfg n = []"
  shows "n = r"
proof (rule ccontr)
  assume "n \<noteq> r"
  moreover have "(r, n) \<in> (set (candidateEdges cfg))\<^sup>*"
    using assms(1,2) by (simp add: singleEntry_def)
  ultimately obtain d where "(d, n) \<in> set (candidateEdges cfg)" by (metis rtranclE)
  with assms(3) show False by (simp add: candidateEdges_iff)
qed

text \<open>
  When the candidate edges form no cycle, a node that is the only one without candidates is
  the single entry.
\<close>

lemma topological_singleEntry:
  assumes cl: "closedGraph cfg" and topo: "topological cfg rk" and r: "r \<in> set (getNodes cfg)"
    and only: "\<forall>n \<in> set (getNodes cfg). getDominatorCandidates cfg n = [] \<longleftrightarrow> n = r"
  shows "singleEntry cfg r"
proof -
  have "n \<in> set (getNodes cfg) \<Longrightarrow> (r, n) \<in> (set (candidateEdges cfg))\<^sup>*" for n
  proof (induction "rk n" arbitrary: n rule: less_induct)
    case less
    show ?case
    proof (cases "n = r")
      case True then show ?thesis by simp
    next
      case False
      with only less.prems obtain d where d: "d \<in> set (getDominatorCandidates cfg n)"
        by (cases "getDominatorCandidates cfg n") auto
      have dN: "d \<in> set (getNodes cfg)" using closed_candidates[OF cl less.prems d] .
      have "rk d < rk n" using topo less.prems d unfolding topological_def by blast
      from less.hyps[OF this dN] have "(r, d) \<in> (set (candidateEdges cfg))\<^sup>*" .
      moreover have "(d, n) \<in> set (candidateEdges cfg)" using less.prems d by (simp add: candidateEdges_iff)
      ultimately show ?thesis by (rule rtrancl_into_rtrancl)
    qed
  qed
  with r only show ?thesis by (simp add: singleEntry_def)
qed

subsection \<open>The sentinel in a path of parent links\<close>

lemma pathIn_sentinel_last:
  assumes ent: "\<And>x. (x, None) \<in> R \<Longrightarrow> x = Some r" and stop: "\<And>y. (None, y) \<notin> R"
  shows "pathIn R xs \<Longrightarrow> None \<in> set xs \<Longrightarrow> hd xs \<noteq> None \<Longrightarrow>
         \<exists>ys. xs = ys @ [Some r, None] \<and> None \<notin> set ys"
proof (induction xs)
  case Nil then show ?case by simp
next
  case (Cons x xs)
  show ?case
  proof (cases xs)
    case Nil with Cons.prems show ?thesis by simp
  next
    case (Cons y ys)
    from Cons.prems(1) have xy: "(x, y) \<in> R" and p: "pathIn R (y # ys)"
      unfolding Cons by (simp_all add: pathIn_Cons)
    show ?thesis
    proof (cases "y = None")
      case True
      have "x = Some r" using xy True ent by simp
      moreover have "ys = []"
      proof (cases ys)
        case Nil then show ?thesis .
      next
        case (Cons z zs)
        with p True have "(None, z) \<in> R" by (simp add: pathIn_Cons)
        with stop show ?thesis by simp
      qed
      ultimately have "x # xs = [] @ [Some r, None]" using Cons True by simp
      then show ?thesis by (metis empty_iff list.set(1))
    next
      case False
      have "x \<noteq> None" using Cons.prems(3) by simp
      with Cons.prems(2) have "None \<in> set xs" by simp
      with Cons.IH p False Cons obtain ys' where "xs = ys' @ [Some r, None]" "None \<notin> set ys'"
        by auto
      with \<open>x \<noteq> None\<close> have "x # xs = (x # ys') @ [Some r, None] \<and> None \<notin> set (x # ys')" by auto
      then show ?thesis by blast
    qed
  qed
qed

lemma hd_dropWhile_append:
  assumes "\<not> Q a"
  shows "hd (dropWhile Q (ys @ a # zs)) \<in> set ys \<union> {a}"
proof (cases "\<forall>y \<in> set ys. Q y")
  case True
  with assms show ?thesis by simp
next
  case False
  then have ne: "dropWhile Q ys \<noteq> []" by simp
  have "dropWhile Q (ys @ a # zs) = dropWhile Q ys @ a # zs"
    using False by (metis dropWhile_append1)
  with ne have "hd (dropWhile Q (ys @ a # zs)) = hd (dropWhile Q ys)" by simp
  moreover have "hd (dropWhile Q ys) \<in> set ys" using ne by (metis hd_in_set set_dropWhileD)
  ultimately show ?thesis by simp
qed

lemma truncate_keeps_node:
  assumes ent: "\<And>x. (x, None) \<in> R \<Longrightarrow> x = Some r" and stop: "\<And>y. (None, y) \<notin> R"
    and pV: "pathIn R V" and hV: "hd V \<noteq> None"
    and pP: "pathIn R (Some c # ch)"
    and V': "V' = dropWhile (\<lambda>node. \<not> (Some c = node \<or> node \<in> set ch)) V" and ne: "V' \<noteq> []"
  shows "hd V' \<noteq> None"
proof
  assume h: "hd V' = None"
  let ?Q = "\<lambda>node. \<not> (Some c = node \<or> node \<in> set ch)"
  have "hd V' \<in> set V'" using ne by simp
  then have inV: "None \<in> set V" using h V' by (metis set_dropWhileD)
  have "\<not> ?Q (hd V')" using ne unfolding V' by (rule hd_dropWhile)
  with h have "None \<in> set (Some c # ch)" by auto
  from pathIn_sentinel_last[of R r, OF ent stop pP this]
  obtain ps where "Some c # ch = ps @ [Some r, None]" by auto
  then have "Some r \<in> set (Some c # ch)" by (metis in_set_conv_decomp)
  then have nq: "\<not> ?Q (Some r)" by auto
  from pathIn_sentinel_last[of R r, OF ent stop pV inV hV]
  obtain ys where ys: "V = ys @ [Some r, None]" "None \<notin> set ys" by auto
  have "hd (dropWhile ?Q (ys @ Some r # [None])) \<in> set ys \<union> {Some r}"
    using nq by (rule hd_dropWhile_append)
  with ys V' have "hd V' \<in> set ys \<union> {Some r}" by simp
  with h ys(2) show False by auto
qed

lemma truncate_reach:
  assumes pV: "pathIn R V" and pP: "pathIn R (Some c # ch)"
    and V': "V' = dropWhile (\<lambda>node. \<not> (Some c = node \<or> node \<in> set ch)) V" and ne: "V' \<noteq> []"
  shows "pathIn R V'" and "(hd V, hd V') \<in> R\<^sup>*" and "(Some c, hd V') \<in> R\<^sup>*"
proof -
  let ?Q = "\<lambda>node. \<not> (Some c = node \<or> node \<in> set ch)"
  show "pathIn R V'" unfolding V' dropWhile_eq_drop using pV by (rule pathIn_drop)
  have hV': "hd V' \<in> set V'" using ne by simp
  then have inV: "hd V' \<in> set V" using V' by (metis set_dropWhileD)
  then obtain v0 vs where Vc: "V = v0 # vs" by (cases V) auto
  from pathIn_reach[of R v0 vs "hd V'"] pV inV Vc show "(hd V, hd V') \<in> R\<^sup>*" by simp
  have "\<not> ?Q (hd V')" using ne unfolding V' by (rule hd_dropWhile)
  then have "hd V' \<in> set (Some c # ch)" by auto
  from pathIn_reach[OF pP this] show "(Some c, hd V') \<in> R\<^sup>*" .
qed

lemma mergeChains_common:
  assumes ent: "\<And>x. (x, None) \<in> R \<Longrightarrow> x = Some r" and stop: "\<And>y. (None, y) \<notin> R"
  shows "pathIn R V \<Longrightarrow> hd V \<noteq> None \<Longrightarrow> \<forall>p \<in> set rest. pathIn R (Some (fst p) # snd p) \<Longrightarrow>
         mergeChains V rest = Some W \<Longrightarrow> W \<noteq> [] \<Longrightarrow>
         pathIn R W \<and> hd W \<noteq> None \<and> (hd V, hd W) \<in> R\<^sup>* \<and>
         (\<forall>p \<in> set rest. (Some (fst p), hd W) \<in> R\<^sup>*)"
proof (induction V rest rule: mergeChains.induct)
  case (1 V)
  then show ?case by simp
next
  case (2 V c ch rest)
  let ?f = "dropWhile (\<lambda>node. \<not> (Some c = node \<or> node \<in> set ch)) V"
  from 2(5) have fne: "?f \<noteq> []" and m: "mergeChains ?f rest = Some W"
    by (auto simp: Let_def split: if_splits)
  have pP: "pathIn R (Some c # ch)" using 2(4) by simp
  note T = truncate_reach[OF 2(2) pP refl fne]
  have hf: "hd ?f \<noteq> None" using truncate_keeps_node[of R r, OF ent stop 2(2,3) pP refl fne] .
  have rest: "\<forall>p \<in> set rest. pathIn R (Some (fst p) # snd p)" using 2(4) by simp
  from 2(1)[OF refl fne T(1) hf rest m 2(6)]
  have I1: "pathIn R W" and I0: "hd W \<noteq> None" and I2: "(hd ?f, hd W) \<in> R\<^sup>*"
    and I3: "\<forall>p \<in> set rest. (Some (fst p), hd W) \<in> R\<^sup>*"
    by blast+
  have "(hd V, hd W) \<in> R\<^sup>*" using T(2) I2 by (rule rtrancl_trans)
  moreover have "(Some c, hd W) \<in> R\<^sup>*" using T(3) I2 by (rule rtrancl_trans)
  ultimately show ?case using I1 I0 I3 by simp
qed

subsection \<open>Heads are common ancestors of the candidates\<close>

lemma sound_grow:
  assumes li: "linkedInv dc" and co: "commonInv cfg dc" and se: "sentinelInv cfg dc"
    and new: "map_of dc n = None" and upd: "map_of dc' = (map_of dc)(n \<mapsto> c)"
    and cne: "c \<noteq> []" and pc: "pathIn (up (heads dc)) c"
    and cm: "\<forall>k \<in> set (getDominatorCandidates cfg n). (Some k, hd c) \<in> (up (heads dc))\<^sup>*"
    and sn: "hd c = None \<Longrightarrow> getDominatorCandidates cfg n = []"
  shows "linkedInv dc' \<and> commonInv cfg dc' \<and> sentinelInv cfg dc'"
proof -
  let ?R = "up (heads dc)" and ?R' = "up (heads dc')"
  have h': "heads dc' = (heads dc)(n \<mapsto> hd c)" using upd by (auto simp: heads_def fun_eq_iff)
  have hn: "heads dc n = None" using new by (simp add: heads_def)
  have sub: "?R \<subseteq> ?R'" using hn unfolding h' by (intro up_mono) auto
  have sub': "?R\<^sup>* \<subseteq> ?R'\<^sup>*" using sub by (rule rtrancl_mono)
  have 1: "linkedInv dc'"
    unfolding linkedInv_def
  proof (intro allI impI)
    fix k ck assume k: "map_of dc' k = Some ck"
    show "pathIn ?R' (Some k # ck)"
    proof (cases "k = n")
      case True
      with k upd have "ck = c" by simp
      moreover have "(Some n, hd c) \<in> ?R'" unfolding h' by (simp add: up_def)
      moreover have "pathIn ?R' c" using pc sub by (rule pathIn_mono)
      ultimately show ?thesis using True by (simp add: pathIn_Cons_iff)
    next
      case False
      with k upd have "map_of dc k = Some ck" by simp
      with li have "pathIn ?R (Some k # ck)" unfolding linkedInv_def by blast
      then show ?thesis using sub by (rule pathIn_mono)
    qed
  qed
  have 2: "commonInv cfg dc'"
    unfolding commonInv_def
  proof (intro allI impI ballI)
    fix k h d assume k: "heads dc' k = Some h" and d: "d \<in> set (getDominatorCandidates cfg k)"
    have "(Some d, h) \<in> ?R\<^sup>*"
    proof (cases "k = n")
      case True
      with k h' have "h = hd c" by simp
      with cm d True show ?thesis by simp
    next
      case False
      with k h' have "heads dc k = Some h" by simp
      with co d show ?thesis unfolding commonInv_def by blast
    qed
    with sub' show "(Some d, h) \<in> ?R'\<^sup>*" by blast
  qed
  have 3: "sentinelInv cfg dc'"
    unfolding sentinelInv_def
  proof (intro allI impI)
    fix k assume k: "heads dc' k = Some None"
    show "getDominatorCandidates cfg k = []"
    proof (cases "k = n")
      case True
      with k h' have "hd c = None" by simp
      with sn True show ?thesis by simp
    next
      case False
      with k h' have "heads dc k = Some None" by simp
      with se show ?thesis unfolding sentinelInv_def by blast
    qed
  qed
  from 1 2 3 show ?thesis by blast
qed

lemma linked_extendChain:
  assumes li: "linkedInv dc" and ne: "nonemptyChains dc"
  shows "linkedInv (extendChain dc k)"
proof (cases "extendChain dc k = dc")
  case True with li show ?thesis by simp
next
  case False
  then obtain c q cq where c: "map_of dc k = Some c" "c \<noteq> []" "last c = Some q" "map_of dc q = Some cq"
    and e: "extendChain dc k = AList.update k (c @ cq) dc"
    by (auto simp: extendChain_def split: option.splits if_splits)
  have h: "heads (extendChain dc k) = heads dc" using extendChain_heads[OF ne] by simp
  have cq: "cq \<noteq> []" using ne c(4) by (auto simp: nonemptyChains_def)
  let ?R = "up (heads dc)"
  have p1: "pathIn ?R (Some k # c)" and p2: "pathIn ?R (Some q # cq)"
    using li c(1,4) unfolding linkedInv_def by blast+
  have "pathIn ?R ((Some k # c) @ cq)"
    unfolding pathIn_append using p1 p2 cq c(2,3) by (simp add: pathIn_Cons_iff)
  then have new: "pathIn ?R (Some k # c @ cq)" by simp
  show "linkedInv (extendChain dc k)"
    unfolding linkedInv_def h using li new unfolding e linkedInv_def
    by (auto simp: update_conv')
qed

lemma soundInv_extendChains:
  assumes "soundInv cfg s"
  shows "soundInv cfg (s\<lparr>dominatorChains := extendChains ord (dominatorChains s)\<rparr>)"
proof -
  let ?dc = "dominatorChains s"
  have sh: "shapeInv cfg (set (getNodes cfg)) s" and li: "linkedInv ?dc"
    and co: "commonInv cfg ?dc" and se: "sentinelInv cfg ?dc"
    using assms by (simp_all add: soundInv_def)
  have ne: "nonemptyChains ?dc" using sh by (simp add: shapeInv_def)
  have "nonemptyChains dc \<Longrightarrow> linkedInv dc \<Longrightarrow> linkedInv (foldl extendChain dc ks)" for dc ks
  proof (induction ks arbitrary: dc)
    case Nil then show ?case by simp
  next
    case (Cons k ks)
    from linked_extendChain[OF Cons.prems(2,1), of k] extendChain_heads[OF Cons.prems(1), of k]
      Cons.IH[of "extendChain dc k"] show ?case by simp
  qed
  from this[OF ne li] have 1: "linkedInv (extendChains ord ?dc)" by (simp add: extendChains_def)
  have h: "heads (extendChains ord ?dc) = heads ?dc"
    using foldl_extendChain_heads[OF ne] by (simp add: extendChains_def)
  have 2: "commonInv cfg (extendChains ord ?dc)" using co unfolding commonInv_def h .
  have 3: "sentinelInv cfg (extendChains ord ?dc)" using se unfolding sentinelInv_def h .
  from shapeInv_extendChains[OF sh, of ord] 1 2 3 show ?thesis by (simp add: soundInv_def)
qed

lemma soundInv_merged:
  assumes inv: "soundInv cfg s" and en: "singleEntry cfg r"
    and ordset: "set (candidateOrder ord cs) = set cs"
    and p: "map_of (predecessors s) n = Some cs"
    and l: "predecessorDominatorChains ord (dominatorChains s) cs = Some ((c, ch) # rest)"
    and m: "mergeChains (Some c # ch) rest = Some W" and ne: "W \<noteq> []"
  shows "soundInv cfg (merged s n W)"
proof -
  let ?dc = "dominatorChains s" and ?R = "up (heads (dominatorChains s))"
  let ?dc' = "emplace n W ?dc"
  have sh: "shapeInv cfg (set (getNodes cfg)) s" and li: "linkedInv ?dc"
    and co: "commonInv cfg ?dc" and se: "sentinelInv cfg ?dc"
    using inv by (simp_all add: soundInv_def)
  have sub: "set (candidateOrder ord cs) \<subseteq> set cs" using ordset by simp
  have cs: "cs = getDominatorCandidates cfg n" and hn: "map_of ?dc n = None"
    and len: "2 \<le> length cs"
    using sh p unfolding shapeInv_def heads_None_iff[symmetric] by blast+
  have upd: "map_of ?dc' = (map_of ?dc)(n \<mapsto> W)" using hn by (simp add: map_of_emplace)
  have ent: "x = Some r" if "(x, None) \<in> ?R" for x
  proof -
    from that obtain a where a: "x = Some a" "heads ?dc a = Some None" by (auto simp: up_def)
    then have "getDominatorCandidates cfg a = []" using se unfolding sentinelInv_def by blast
    moreover have "a \<in> set (getNodes cfg)" using sh a(2) unfolding shapeInv_def by (metis option.distinct(1))
    ultimately show ?thesis using entry_unique[OF en] a(1) by simp
  qed
  have stop: "(None, y) \<notin> ?R" for y by (simp add: up_def)
  have pe: "pathIn ?R (Some (fst q) # snd q)" if "q \<in> set ((c, ch) # rest)" for q
  proof -
    from pdc_entry[OF l that sub] have "map_of ?dc (fst q) = Some (snd q)" by simp
    with li show ?thesis unfolding linkedInv_def by blast
  qed
  have pV: "pathIn ?R (Some c # ch)" using pe[of "(c, ch)"] by simp
  have prest: "\<forall>q \<in> set rest. pathIn ?R (Some (fst q) # snd q)" using pe by simp
  from mergeChains_common[of ?R r, OF ent stop pV _ prest m ne]
  have pW: "pathIn ?R W" and hW: "hd W \<noteq> None" and n1: "(Some c, hd W) \<in> ?R\<^sup>*"
    and n2: "\<forall>q \<in> set rest. (Some (fst q), hd W) \<in> ?R\<^sup>*"
    by simp_all
  have keys: "set cs = fst ` set ((c, ch) # rest)"
  proof -
    from pdc_Some[OF l] have "fst ` set ((c, ch) # rest) = set (candidateOrder ord cs)"
      by (simp add: image_image del: set_simps)
    with ordset show ?thesis by simp
  qed
  have cm: "(Some k, hd W) \<in> ?R\<^sup>*" if "k \<in> set cs" for k
  proof -
    from that keys obtain q where q: "q \<in> set ((c, ch) # rest)" "k = fst q" by blast
    show ?thesis
    proof (cases "q = (c, ch)")
      case True with q n1 show ?thesis by simp
    next
      case False with q n2 show ?thesis by simp
    qed
  qed
  have "linkedInv ?dc' \<and> commonInv cfg ?dc' \<and> sentinelInv cfg ?dc'"
  proof (rule sound_grow[OF li co se hn upd ne pW])
    show "\<forall>k \<in> set (getDominatorCandidates cfg n). (Some k, hd W) \<in> ?R\<^sup>*"
      using cm cs by simp
    show "getDominatorCandidates cfg n = []" if "hd W = None" using that hW by simp
  qed
  with shapeInv_merged[OF sh p ne] show ?thesis by (simp add: soundInv_def merged_def)
qed

lemma soundInv_tryMerge:
  assumes "soundInv cfg s" "singleEntry cfg r" "traversal ord"
    "map_of (predecessors s) n = Some cs" "tryMerge ord s n cs = Inr s'"
  shows "soundInv cfg s'"
proof (cases rule: tryMerge_cases[of ord s n cs])
  case unchanged with assms show ?thesis by simp
next
  case (failed c ch rest W) with assms(5) show ?thesis by simp
next
  case (resolved c ch rest W)
  have "set (candidateOrder ord cs) = set cs" using assms(3) by (simp add: traversal_def)
  from soundInv_merged[OF assms(1,2) this assms(4) resolved(1,2,3)] resolved(4) assms(5)
  show ?thesis by simp
qed

lemma soundInv_iteration:
  assumes inv: "soundInv cfg s" and en: "singleEntry cfg r" and tr: "traversal ord"
    and it: "iteration ord s = Inr s'"
  shows "soundInv cfg s'"
proof -
  let ?s1 = "s\<lparr>dominatorChains := extendChains ord (dominatorChains s)\<rparr>"
  have 1: "soundInv cfg ?s1" using inv by (rule soundInv_extendChains)
  have 2: "mergePass ord (pendingOrder ord (map fst (predecessors ?s1))) ?s1 = Inr s'"
    using it by (simp add: iteration_def Let_def)
  show ?thesis
  proof (rule mergePass_invariant[where I = "soundInv cfg", OF _ 1 2])
    fix s k cs s'
    assume "soundInv cfg s" "map_of (predecessors s) k = Some cs" "tryMerge ord s k cs = Inr s'"
    then show "soundInv cfg s'" using en tr by (intro soundInv_tryMerge[of cfg s r ord k cs s'])
  qed
qed

lemma sound_directStep:
  assumes sh: "shapeInv cfg N s"
    and li: "linkedInv (dominatorChains s)" and co: "commonInv cfg (dominatorChains s)"
    and se: "sentinelInv cfg (dominatorChains s)" and xN: "x \<notin> N"
  shows "linkedInv (dominatorChains (directStep cfg s x)) \<and>
         commonInv cfg (dominatorChains (directStep cfg s x)) \<and>
         sentinelInv cfg (dominatorChains (directStep cfg s x))"
proof -
  let ?dc = "dominatorChains s" and ?dc' = "dominatorChains (directStep cfg s x)"
  have hx: "map_of ?dc x = None"
    using sh xN unfolding shapeInv_def heads_None_iff[symmetric] by (metis)
  show ?thesis
  proof (cases "getDominatorCandidates cfg x")
    case Nil
    have upd: "map_of ?dc' = (map_of ?dc)(x \<mapsto> [None])"
      using Nil hx by (simp add: directStep_def map_of_emplace)
    show ?thesis
      by (rule sound_grow[OF li co se hx upd]) (simp_all add: Nil pathIn_def)
  next
    case (Cons d ds)
    note c = Cons
    show ?thesis
    proof (cases ds)
      case Nil
      have dx: "d \<noteq> x" using candidates_not_self[of x cfg] c by auto
      show ?thesis
      proof (cases "map_of ?dc d")
        case None
        have upd: "map_of ?dc' = (map_of ?dc)(x \<mapsto> [Some d])"
          using c Nil hx dx None by (simp add: directStep_def Let_def map_of_emplace)
        show ?thesis
          by (rule sound_grow[OF li co se hx upd]) (simp_all add: c Nil pathIn_def)
      next
        case (Some cd)
        have upd: "map_of ?dc' = (map_of ?dc)(x \<mapsto> Some d # cd)"
          using c Nil hx dx Some by (simp add: directStep_def Let_def map_of_emplace map_of_appendTo)
        have "pathIn (up (heads ?dc)) (Some d # cd)" using li Some unfolding linkedInv_def by blast
        then show ?thesis
          by (intro sound_grow[OF li co se hx upd]) (simp_all add: c Nil)
      qed
    next
      case (Cons d' ds')
      then show ?thesis using li co se c by (simp add: directStep_def)
    qed
  qed
qed

lemma sound_foldl:
  "shapeInv cfg N s \<Longrightarrow> linkedInv (dominatorChains s) \<Longrightarrow> commonInv cfg (dominatorChains s) \<Longrightarrow>
   sentinelInv cfg (dominatorChains s) \<Longrightarrow> distinct ns \<Longrightarrow> set ns \<inter> N = {} \<Longrightarrow>
   linkedInv (dominatorChains (foldl (directStep cfg) s ns)) \<and>
   commonInv cfg (dominatorChains (foldl (directStep cfg) s ns)) \<and>
   sentinelInv cfg (dominatorChains (foldl (directStep cfg) s ns))"
proof (induction ns arbitrary: N s)
  case Nil then show ?case by simp
next
  case (Cons x xs)
  have xN: "x \<notin> N" using Cons.prems by auto
  have 1: "shapeInv cfg (insert x N) (directStep cfg s x)"
    using Cons.prems(1) xN by (rule shapeInv_directStep)
  from sound_directStep[OF Cons.prems(1,2,3,4) xN]
  have 2: "linkedInv (dominatorChains (directStep cfg s x))"
    and 3: "commonInv cfg (dominatorChains (directStep cfg s x))"
    and 4: "sentinelInv cfg (dominatorChains (directStep cfg s x))" by simp_all
  from Cons.IH[OF 1 2 3 4] Cons.prems show ?case by auto
qed

lemma soundInv_directPass:
  assumes "distinct (getNodes cfg)"
  shows "soundInv cfg (directPass cfg)"
proof -
  have "linkedInv (dominatorChains initialState)" "commonInv cfg (dominatorChains initialState)"
    "sentinelInv cfg (dominatorChains initialState)"
    by (simp_all add: linkedInv_def commonInv_def sentinelInv_def heads_def initialState_def)
  from sound_foldl[OF shapeInv_initial this, where ns = "getNodes cfg"] assms
    shapeInv_directPass[OF assms]
  show ?thesis by (simp add: soundInv_def directPass_def)
qed

lemma soundInv_final:
  assumes "distinct (getNodes cfg)" "singleEntry cfg r" "traversal ord"
    and "mergeLoop ord (directPass cfg) = Some (Inr s')"
  shows "soundInv cfg s' \<and> predecessors s' = []"
proof (rule mergeLoop_invariant[where I = "soundInv cfg", OF _ assms(4)])
  show "soundInv cfg (directPass cfg)" using assms(1) by (rule soundInv_directPass)
next
  fix s s' assume "soundInv cfg s" "iteration ord s = Inr s'"
  then show "soundInv cfg s'" using assms(2,3) by (intro soundInv_iteration[of cfg s r ord s'])
qed

subsection \<open>The returned tree\<close>

lemma final_entry_head:
  assumes inv: "soundInv cfg s" and e: "predecessors s = []" and en: "singleEntry cfg r"
  shows "heads (dominatorChains s) r = Some None"
proof -
  have sh: "shapeInv cfg (set (getNodes cfg)) s" using inv by (simp add: soundInv_def)
  have r: "r \<in> set (getNodes cfg)" and c: "getDominatorCandidates cfg r = []"
    using en by (simp_all add: singleEntry_def)
  from shapeInv_final_heads[OF sh e r] obtain h where h: "heads (dominatorChains s) r = Some h"
    by blast
  have "\<forall>n \<in> set (getNodes cfg). \<forall>h. length (getDominatorCandidates cfg n) \<le> 1 \<longrightarrow>
          heads (dominatorChains s) n = Some h \<longrightarrow>
          h = (case getDominatorCandidates cfg n of [] \<Rightarrow> None | d # ds \<Rightarrow> Some d)"
    using sh unfolding shapeInv_def by blast
  with r c h have "h = None" by fastforce
  with h show ?thesis by simp
qed

lemma final_node_head:
  assumes inv: "soundInv cfg s" and e: "predecessors s = []" and en: "singleEntry cfg r"
    and n: "n \<in> set (getNodes cfg)" and nr: "n \<noteq> r"
  shows "\<exists>d. heads (dominatorChains s) n = Some (Some d)"
proof -
  have sh: "shapeInv cfg (set (getNodes cfg)) s" and se: "sentinelInv cfg (dominatorChains s)"
    using inv by (simp_all add: soundInv_def)
  from shapeInv_final_heads[OF sh e n] obtain h where h: "heads (dominatorChains s) n = Some h"
    by blast
  have "h \<noteq> None"
  proof
    assume "h = None"
    with h se have "getDominatorCandidates cfg n = []" unfolding sentinelInv_def by blast
    from entry_unique[OF en n this] nr show False by simp
  qed
  with h show ?thesis by auto
qed

lemma final_reaches_entry:
  assumes inv: "soundInv cfg s" and e: "predecessors s = []" and en: "singleEntry cfg r"
    and n: "n \<in> set (getNodes cfg)"
  shows "(Some n, Some r) \<in> (up (heads (dominatorChains s)))\<^sup>*"
proof -
  let ?R = "up (heads (dominatorChains s))"
  have co: "commonInv cfg (dominatorChains s)" using inv by (simp add: soundInv_def)
  have hr: "heads (dominatorChains s) r = Some None" using inv e en by (rule final_entry_head)
  have "(r, n) \<in> (set (candidateEdges cfg))\<^sup>*" using en n by (simp add: singleEntry_def)
  then show ?thesis
  proof (induction rule: rtrancl_induct)
    case base show ?case by simp
  next
    case (step y z)
    from step.hyps(2) have z: "z \<in> set (getNodes cfg)" and y: "y \<in> set (getDominatorCandidates cfg z)"
      by (simp_all add: candidateEdges_iff)
    have "z \<noteq> r" using y en by (auto simp: singleEntry_def)
    from final_node_head[OF inv e en z this] obtain d where d: "heads (dominatorChains s) z = Some (Some d)"
      by blast
    have yd: "(Some y, Some d) \<in> ?R\<^sup>*" using co d y unfolding commonInv_def by blast
    have "(Some d, Some r) \<in> ?R\<^sup>*"
      using single_valued_confluent[OF single_valued_up yd step.IH]
    proof
      assume "(Some d, Some r) \<in> ?R\<^sup>*" then show ?thesis .
    next
      assume rd: "(Some r, Some d) \<in> ?R\<^sup>*"
      show ?thesis
      proof (cases "d = r")
        case True then show ?thesis by simp
      next
        case False
        with rd obtain w where w: "(Some r, w) \<in> ?R" "(w, Some d) \<in> ?R\<^sup>*"
          by (metis converse_rtranclE option.inject)
        from w(1) hr have "w = None" by (auto simp: up_def)
        with w(2) have "(None, Some d) \<in> ?R\<^sup>*" by simp
        from up_from_None[OF this] show ?thesis by simp
      qed
    qed
    moreover have "(Some z, Some d) \<in> ?R" using d by (simp add: up_def)
    ultimately show ?case by (meson converse_rtrancl_into_rtrancl)
  qed
qed

lemma cycle_closed:
  assumes sv: "single_valued R" and cyc: "(x, x) \<in> R\<^sup>+"
  shows "(x, y) \<in> R\<^sup>* \<Longrightarrow> (y, x) \<in> R\<^sup>*"
proof (induction rule: rtrancl_induct)
  case base show ?case by simp
next
  case (step y z)
  have "(y, x) \<in> R\<^sup>+"
  proof (cases "y = x")
    case True with cyc show ?thesis by simp
  next
    case False with step.IH show ?thesis by (metis rtranclD)
  qed
  then obtain w where "(y, w) \<in> R" "(w, x) \<in> R\<^sup>*" by (metis tranclD)
  with step.hyps(2) sv show ?case by (metis single_valuedD)
qed

lemma climb_stays:
  assumes "\<forall>(d, n) \<in> set (treeEdges t). d \<in> N"
  shows "n \<in> N \<Longrightarrow> climb t k n = Some root \<Longrightarrow> root \<in> N"
proof (induction k arbitrary: n)
  case 0 then show ?case by (auto split: option.splits)
next
  case (Suc k)
  show ?case
  proof (cases "parentOf t n")
    case None with Suc.prems show ?thesis by simp
  next
    case (Some d)
    from parentOf_edge[OF this] assms have "d \<in> N" by auto
    from Suc.IH[OF this] Suc.prems(2) Some show ?thesis by simp
  qed
qed

text \<open>
  Claim C6. In the tree returned for a graph with a single entry (a node without candidates
  from which every node is reached along candidate edges; the nodes held once, the edges
  between nodes of the graph), every node other than the entry has exactly one incoming edge
  and the entry has none, no node is its own ancestor, and the walk along parent links from
  any tree node ends in the entry, which has no parent, after at most as many steps as the
  tree has nodes.
\<close>

theorem tree_invariants:
  assumes "distinct (getNodes cfg)" and "closedGraph cfg" and "singleEntry cfg r"
    and "traversal ord" and "createDominatorTree ord cfg = Some (Inr t)"
  shows "(\<forall>n \<in> set (treeNodes t). n \<noteq> r \<longrightarrow> (\<exists>d. parentEdges t n = [(d, n)])) \<and>
         r \<in> set (treeNodes t) \<and> parentEdges t r = [] \<and>
         (\<forall>n. (n, n) \<notin> (set (treeEdges t))\<^sup>+) \<and>
         (\<forall>n \<in> set (treeNodes t). climb t (length (treeNodes t)) n = Some r \<and> parentOf t r = None)"
proof -
  let ?N = "set (getNodes cfg)"
  from assms(5) obtain s' where run: "mergeLoop ord (directPass cfg) = Some (Inr s')"
    and t: "t = tree s'"
    by (auto simp: createDominatorTree_Inr)
  let ?h = "heads (dominatorChains s')"
  let ?R = "up ?h"
  from soundInv_final[OF assms(1,3,4) run] have inv: "soundInv cfg s'" and e: "predecessors s' = []"
    by simp_all
  have sh: "shapeInv cfg ?N s'" using inv by (simp add: soundInv_def)
  have pe: "parentEdges t n = (case ?h n of Some (Some d) \<Rightarrow> [(d, n)] | _ \<Rightarrow> [])" for n
    using sh unfolding shapeInv_def t by blast
  have em: "edgesMatchHeads t ?h" unfolding t using sh by (rule shapeInv_edgesMatchHeads)
  have hN: "n \<in> ?N" if "?h n \<noteq> None" for n using sh that unfolding shapeInv_def by blast
  have nodes: "distinct (treeNodes t)" "set (treeNodes t) = ?N"
    using final_tree_nodes[OF assms(1,2) run] unfolding t by simp_all
  have rN: "r \<in> ?N" using assms(3) by (simp add: singleEntry_def)
  have hr: "?h r = Some None" using inv e assms(3) by (rule final_entry_head)
  have reach: "(Some n, Some r) \<in> ?R\<^sup>*" if "n \<in> ?N" for n
    using inv e assms(3) that by (rule final_reaches_entry)
  have 1: "\<forall>n \<in> set (treeNodes t). n \<noteq> r \<longrightarrow> (\<exists>d. parentEdges t n = [(d, n)])"
  proof (intro ballI impI)
    fix n assume "n \<in> set (treeNodes t)" "n \<noteq> r"
    with nodes have "n \<in> ?N" by simp
    from final_node_head[OF inv e assms(3) this \<open>n \<noteq> r\<close>] obtain d where "?h n = Some (Some d)" by blast
    then show "\<exists>d. parentEdges t n = [(d, n)]" unfolding pe by simp
  qed
  have 2: "parentEdges t r = []" unfolding pe hr by simp
  then have pr: "parentOf t r = None" by (simp add: parentOf_def)
  have 3: "\<forall>n. (n, n) \<notin> (set (treeEdges t))\<^sup>+"
  proof (intro allI notI)
    fix n assume c: "(n, n) \<in> (set (treeEdges t))\<^sup>+"
    then obtain y where y: "(n, y) \<in> (set (treeEdges t))\<^sup>*" "(y, n) \<in> set (treeEdges t)"
      by (metis tranclD2)
    from y(2) em have hn: "?h n = Some (Some y)" by (simp add: edgesMatchHeads_def)
    then have st: "(Some n, Some y) \<in> ?R" by (simp add: up_def)
    have "(Some y, Some n) \<in> ?R\<^sup>*" using em y(1) by (rule edges_to_up)
    with st have cyc: "(Some n, Some n) \<in> ?R\<^sup>+" by (rule rtrancl_into_trancl2)
    have "n \<in> ?N" using hN hn by simp
    from reach[OF this] have "(Some n, Some r) \<in> ?R\<^sup>*" .
    moreover have "(Some r, None) \<in> ?R" using hr by (simp add: up_def)
    ultimately have "(Some n, None) \<in> ?R\<^sup>*" by (rule rtrancl_into_rtrancl)
    from cycle_closed[OF single_valued_up cyc this] have "(None, Some n) \<in> ?R\<^sup>*" .
    from up_from_None[OF this] show False by simp
  qed
  define dep where "dep n = (LEAST k. (Some n, Some r) \<in> ?R ^^ k)" for n
  have ranked: "\<forall>(d, n) \<in> set (treeEdges t). dep d < dep n \<and> d \<in> ?N"
  proof (intro ballI, clarify)
    fix d n assume "(d, n) \<in> set (treeEdges t)"
    with em have hn: "?h n = Some (Some d)" by (simp add: edgesMatchHeads_def)
    have nN: "n \<in> ?N" using hN hn by simp
    from reach[OF this] obtain k where "(Some n, Some r) \<in> ?R ^^ k" by (metis rtrancl_imp_relpow)
    then have L: "(Some n, Some r) \<in> ?R ^^ dep n" unfolding dep_def by (rule LeastI)
    have "n \<noteq> r" using hn hr by auto
    with L obtain j where j: "dep n = Suc j" by (cases "dep n") auto
    with L obtain w where w: "(Some n, w) \<in> ?R" "(w, Some r) \<in> ?R ^^ j" by (metis relpow_Suc_D2)
    from w(1) hn have "w = Some d" by (auto simp: up_def)
    with w(2) have dj: "(Some d, Some r) \<in> ?R ^^ j" by simp
    then have "dep d \<le> j" unfolding dep_def by (rule Least_le)
    with j have "dep d < dep n" by simp
    moreover have "d \<in> ?N"
    proof (cases j)
      case 0 with dj rN show ?thesis by simp
    next
      case (Suc i)
      with dj obtain v where "(Some d, v) \<in> ?R" by (metis relpow_Suc_D2)
      then have "?h d \<noteq> None" by (auto simp: up_def)
      then show ?thesis by (rule hN)
    qed
    ultimately show "dep d < dep n \<and> d \<in> ?N" ..
  qed
  have 4: "climb t (length (treeNodes t)) n = Some r" if n: "n \<in> set (treeNodes t)" for n
  proof -
    have "card {m \<in> ?N. dep m < dep n} \<le> card ?N" by (intro card_mono) auto
    also have "\<dots> = length (treeNodes t)" using nodes by (metis distinct_card)
    finally have "\<exists>root. climb t (length (treeNodes t)) n = Some root \<and> parentOf t root = None"
      by (intro climb_reaches_root[OF ranked]) auto
    then obtain root where root: "climb t (length (treeNodes t)) n = Some root" "parentOf t root = None"
      by blast
    have "\<forall>(d, n) \<in> set (treeEdges t). d \<in> ?N" using ranked by blast
    from climb_stays[OF this _ root(1)] n nodes have "root \<in> set (treeNodes t)" by simp
    moreover have "parentEdges t root = []" using root(2) by (simp add: parentOf_def split: list.splits)
    ultimately have "root = r" using 1 by fastforce
    with root(1) show ?thesis by simp
  qed
  from 1 2 3 4 pr rN nodes show ?thesis by simp
qed

lemma diamond_singleEntry: "singleEntry diamond 0"
proof -
  have c: "candidateEdges diamond = [(0, 1), (0, 2), (1, 3), (2, 3)]" by code_simp
  have n: "getNodes diamond = [0, 1, 2, 3]" by (simp add: diamond_def)
  have z: "getDominatorCandidates diamond 0 = []" by code_simp
  let ?E = "set (candidateEdges diamond)"
  have 1: "(0, 1) \<in> ?E\<^sup>*" and 2: "(0, 2) \<in> ?E\<^sup>*" unfolding c by auto
  have "(1, 3) \<in> ?E" unfolding c by simp
  with 1 have 3: "(0, 3) \<in> ?E\<^sup>*" by (rule rtrancl_into_rtrancl)
  from 1 2 3 z show ?thesis unfolding singleEntry_def n by simp
qed

theorem tree_invariants_witness:
  "distinct (getNodes diamond) \<and> closedGraph diamond \<and> singleEntry diamond 0 \<and>
   traversal insertionOrder \<and>
   createDominatorTree insertionOrder diamond =
     Some (Inr \<lparr>treeNodes = [0, 1, 2, 3], treeEdges = [(0, 1), (0, 2), (0, 3)]\<rparr>) \<and>
   parentEdges \<lparr>treeNodes = [0, 1, 2, 3], treeEdges = [(0, 1), (0, 2), (0, 3)]\<rparr> 3 = [(0, 3)] \<and>
   parentEdges \<lparr>treeNodes = [0, 1, 2, 3], treeEdges = [(0, 1), (0, 2), (0, 3)]\<rparr> 0 = [] \<and>
   (3, 3) \<notin> (set (treeEdges \<lparr>treeNodes = [0, 1, 2, 3], treeEdges = [(0, 1), (0, 2), (0, 3)]\<rparr>))\<^sup>+ \<and>
   climb \<lparr>treeNodes = [0, 1, 2, 3], treeEdges = [(0, 1), (0, 2), (0, 3)]\<rparr> 4 3 = Some 0"
proof -
  let ?t = "\<lparr>treeNodes = [0, 1, 2, 3], treeEdges = [(0, 1), (0, 2), (0, 3)]\<rparr>"
  have c: "createDominatorTree insertionOrder diamond = Some (Inr ?t)" by code_simp
  have p: "parentEdges ?t 3 = [(0, 3)]" by code_simp
  note T = tree_invariants[OF diamond_facts(1,2) diamond_singleEntry diamond_facts(4) c]
  from T have "(3, 3) \<notin> (set (treeEdges ?t))\<^sup>+" by blast
  moreover have "climb ?t 4 3 = Some 0"
  proof -
    have m: "3 \<in> set (treeNodes ?t)" and l: "length (treeNodes ?t) = 4" by simp_all
    from T have "\<forall>n \<in> set (treeNodes ?t). climb ?t (length (treeNodes ?t)) n = Some 0" by blast
    from bspec[OF this m] show ?thesis unfolding l .
  qed
  moreover from T have "parentEdges ?t 0 = []" by blast
  ultimately show ?thesis using diamond_facts diamond_singleEntry c p by simp
qed



end
